theory Spec2Isabelle
  imports Complex_Main "HOL-Library.Sublist"
begin

section \<open>Candidate articles (the newsItem objects of services/newsService.js)\<close>

text \<open>
  A JavaScript string is modelled as a \<open>string\<close>, one \<open>char\<close> per code unit
  (the strings of the model are those whose code units are below 256), so \<open>length\<close>
  is the \<open>.length\<close> of the source. A property that may hold
  \<open>undefined\<close> (\<open>item.title?.trim()\<close>, \<open>item.link\<close>) is an option.
  \<open>mapCategory\<close> can return a member inherited from \<open>Object.prototype\<close>
  instead of a string, hence \<open>jsvalue\<close>. A \<open>Date\<close> is its time value, \<open>None\<close>
  for an invalid date.
\<close>

datatype jsvalue = Str string | ProtoMember string

record newsItem =
  title :: "string option"
  summary :: string
  source :: string
  url :: "string option"
  publishedAt :: "int option"
  category :: jsvalue
  imageUrl :: "string option"
  sourceHash :: string

datatype error = TypeError | RedisError | ValidationError | DuplicateKeyError | TransportError

text \<open>
  White space as \<open>String.prototype.trim\<close> and the class \<open>\s\<close> of regular
  expressions know it, among the code units below 256.
\<close>

definition isWhitespace :: "char \<Rightarrow> bool" where
  "isWhitespace c =
     (c \<in> set [CHR '' '', CHR 0x09, CHR 0x0A, CHR 0x0B, CHR 0x0C, CHR 0x0D, CHR 0xA0])"

section \<open>processAndDeduplicateNews\<close>

subsection \<open>Exact duplicates: the insertion-ordered Map keyed by sourceHash\<close>

type_synonym hashMap = "(string \<times> newsItem) list"

definition has :: "hashMap \<Rightarrow> string \<Rightarrow> bool" where
  "has m k = (map_of m k \<noteq> None)"

definition mapSet :: "hashMap \<Rightarrow> string \<Rightarrow> newsItem \<Rightarrow> hashMap" where
  "mapSet m k v =
     (if has m k then map (\<lambda>(k', v'). if k' = k then (k', v) else (k', v')) m
      else m @ [(k, v)])"

text \<open>The \<open>newsItems.forEach\<close> loop, with the Map as accumulator.\<close>

fun collectUnique :: "hashMap \<Rightarrow> newsItem list \<Rightarrow> hashMap" where
  "collectUnique m [] = m"
| "collectUnique m (item # items) =
     collectUnique
       (if \<not> has m (sourceHash item) then mapSet m (sourceHash item) item else m) items"

definition uniqueItems :: "newsItem list \<Rightarrow> newsItem list" where
  "uniqueItems newsItems = map snd (collectUnique [] newsItems)"

subsection \<open>Near duplicates: titles compared with string-similarity\<close>

text \<open>
  \<open>String.prototype.toLowerCase\<close> and \<open>stringSimilarity.compareTwoStrings\<close> are
  not code of this repository: the functions below take them as the parameters
  \<open>lower\<close> and \<open>sim\<close>, and every theorem holds for all of them. The score is the
  real number the returned double denotes. The literal \<open>0.8\<close> of the source denotes
  the double nearest to 4/5, which is the rational below.
\<close>

definition threshold :: real where
  "threshold = 3602879701896397 / 4503599627370496"

text \<open>
  \<open>compareTwoStrings(item.title.toLowerCase(), existingItem.title.toLowerCase())\<close>:
  reading \<open>toLowerCase\<close> of an undefined title raises a TypeError (\<open>None\<close>).
\<close>

definition titleSimilarity ::
  "(string \<Rightarrow> string) \<Rightarrow> (string \<Rightarrow> string \<Rightarrow> real) \<Rightarrow> newsItem \<Rightarrow> newsItem \<Rightarrow> real option" where
  "titleSimilarity lower sim item existingItem =
     (case title item of
        None \<Rightarrow> None
      | Some t \<Rightarrow>
          (case title existingItem of
             None \<Rightarrow> None
           | Some te \<Rightarrow> Some (sim (lower t) (lower te))))"

text \<open>The inner loop over \<open>processedItems\<close>; it stops at the first score above the threshold.\<close>

fun isDuplicate ::
  "(string \<Rightarrow> string) \<Rightarrow> (string \<Rightarrow> string \<Rightarrow> real) \<Rightarrow> newsItem \<Rightarrow> newsItem list \<Rightarrow> error + bool" where
  "isDuplicate lower sim item [] = Inr False"
| "isDuplicate lower sim item (existingItem # rest) =
     (case titleSimilarity lower sim item existingItem of
        None \<Rightarrow> Inl TypeError
      | Some s \<Rightarrow> if s > threshold then Inr True else isDuplicate lower sim item rest)"

text \<open>The outer loop over \<open>uniqueItems\<close>, with \<open>processedItems\<close> as accumulator.\<close>

fun nearDedup ::
  "(string \<Rightarrow> string) \<Rightarrow> (string \<Rightarrow> string \<Rightarrow> real) \<Rightarrow> newsItem list \<Rightarrow> newsItem list
     \<Rightarrow> error + newsItem list" where
  "nearDedup lower sim processedItems [] = Inr processedItems"
| "nearDedup lower sim processedItems (item # items) =
     (case isDuplicate lower sim item processedItems of
        Inl e \<Rightarrow> Inl e
      | Inr dup \<Rightarrow>
          nearDedup lower sim (if dup then processedItems else processedItems @ [item]) items)"

definition processAndDeduplicateNews ::
  "(string \<Rightarrow> string) \<Rightarrow> (string \<Rightarrow> string \<Rightarrow> real) \<Rightarrow> newsItem list \<Rightarrow> error + newsItem list" where
  "processAndDeduplicateNews lower sim newsItems = nearDedup lower sim [] (uniqueItems newsItems)"

text \<open>The title of \<open>item\<close> scores above the threshold against the title of \<open>existingItem\<close>.\<close>

definition tooSimilar ::
  "(string \<Rightarrow> string) \<Rightarrow> (string \<Rightarrow> string \<Rightarrow> real) \<Rightarrow> newsItem \<Rightarrow> newsItem \<Rightarrow> bool" where
  "tooSimilar lower sim item existingItem =
     (case titleSimilarity lower sim item existingItem of None \<Rightarrow> False | Some s \<Rightarrow> s > threshold)"

text \<open>
  The items that are the first of their sourceHash, in order: what the Map keeps.
  \<open>seen\<close> are the keys met so far.
\<close>

fun firstSeen :: "string list \<Rightarrow> newsItem list \<Rightarrow> newsItem list" where
  "firstSeen seen [] = []"
| "firstSeen seen (item # items) =
     (if sourceHash item \<in> set seen then firstSeen seen items
      else item # firstSeen (seen @ [sourceHash item]) items)"


subsection \<open>An instance of the two library functions, and the titles of the specification\<close>

text \<open>
  To run the functions on concrete titles the parameters need values. \<open>toLowerCase\<close>
  is \<open>String.prototype.toLowerCase\<close> on code units below 256: it lowers the letters A
  to Z and the capitals from 0xC0 to 0xDE, the sign 0xD7 excepted. \<open>compareTwoStrings\<close>
  is the score the string-similarity package computes: white space removed, 1 for equal
  strings, 0 when one has fewer than two characters, otherwise twice the number of shared
  bigrams (counted with multiplicity) over the number of bigrams of both. Only the closed
  examples use them.
\<close>

definition toLowerCase :: "string \<Rightarrow> string" where
  "toLowerCase s =
     map (\<lambda>c. let n = (of_char c :: nat)
               in if (65 \<le> n \<and> n \<le> 90) \<or> (192 \<le> n \<and> n \<le> 222 \<and> n \<noteq> 215)
                  then char_of (n + 32) else c) s"

fun bigrams :: "string \<Rightarrow> (char \<times> char) list" where
  "bigrams (a # b # cs) = (a, b) # bigrams (b # cs)"
| "bigrams cs = []"

fun intersectionSize :: "(char \<times> char) list \<Rightarrow> (char \<times> char) list \<Rightarrow> nat" where
  "intersectionSize firstBigrams [] = 0"
| "intersectionSize firstBigrams (g # gs) =
     (if g \<in> set firstBigrams then Suc (intersectionSize (remove1 g firstBigrams) gs)
      else intersectionSize firstBigrams gs)"

definition compareTwoStrings :: "string \<Rightarrow> string \<Rightarrow> real" where
  "compareTwoStrings first second =
     (let f = filter (\<lambda>c. \<not> isWhitespace c) first;
          s = filter (\<lambda>c. \<not> isWhitespace c) second
      in if f = s then 1
         else if length f < 2 \<or> length s < 2 then 0
         else 2 * real (intersectionSize (bigrams f) (bigrams s)) / real (length f + length s - 2))"

text \<open>
  The two titles of the specification's order-sensitivity test, a third, unrelated one, and
  a re-fetched copy of the first (same title and link, hence the same sourceHash). Each
  sourceHash is the MD5 digest, in hexadecimal, of the title followed by the link.
\<close>

definition senateT1 :: newsItem where
  "senateT1 = \<lparr> title = Some ''Senate Passes New Budget Bill'',
       summary = ''The Senate approved the budget bill late on Tuesday.'',
       source = ''BBC'', url = Some ''http://feeds.example.org/a'', publishedAt = Some 1700000000000,
       category = Str ''politics'', imageUrl = None,
       sourceHash = ''368756208fed4b41af18fe714e1e5e79'' \<rparr>"

definition senateT2 :: newsItem where
  "senateT2 = \<lparr> title = Some ''Senate passes new budget bill today'',
       summary = ''Lawmakers passed the new budget bill in a late vote.'',
       source = ''Reuters'', url = Some ''http://feeds.example.org/b'', publishedAt = Some 1700000060000,
       category = Str ''politics'', imageUrl = None,
       sourceHash = ''3daf9505beabc95680872ba215254f53'' \<rparr>"

definition otherStory :: newsItem where
  "otherStory = \<lparr> title = Some ''Completely Different Story About Y'',
       summary = ''Something else entirely happened somewhere else.'',
       source = ''BBC'', url = Some ''http://feeds.example.org/c'', publishedAt = Some 1700000120000,
       category = Str ''world'', imageUrl = None,
       sourceHash = ''caa064a71d19d7797dca81ca3ed0a87b'' \<rparr>"

definition senateT1Refetched :: newsItem where
  "senateT1Refetched = senateT1 \<lparr> source := ''BBC (second feed)'', category := Str ''general'' \<rparr>"

section \<open>Source adapters: normalisation and the admission gate\<close>

subsection \<open>mapCategory\<close>

definition categoryMap :: "(string \<times> string) list" where
  "categoryMap =
     [(''tech'', ''technology''), (''sci'', ''science''),
      (''entertainment'', ''entertainment''), (''sport'', ''sports'')]"

text \<open>
  \<open>categoryMap\<close> is an object literal, so \<open>categoryMap[category]\<close> also finds
  the members every object inherits from \<open>Object.prototype\<close>; they are functions or
  objects, hence truthy, and \<open>||\<close> returns them. The parameter \<open>category\<close> of
  the source is \<open>label\<close> here.
\<close>

definition objectPrototypeMembers :: "string list" where
  "objectPrototypeMembers =
     [''constructor'', ''__proto__'', ''hasOwnProperty'', ''isPrototypeOf'',
      ''propertyIsEnumerable'', ''toLocaleString'', ''toString'', ''valueOf'',
      ''__defineGetter__'', ''__defineSetter__'', ''__lookupGetter__'', ''__lookupSetter__'']"

definition mapCategory :: "string \<Rightarrow> jsvalue" where
  "mapCategory label =
     (case map_of categoryMap label of
        Some v \<Rightarrow> if v \<noteq> [] then Str v else Str label
      | None \<Rightarrow>
          if label \<in> set objectPrototypeMembers then ProtoMember label
          else Str label)"

subsection \<open>isValidNewsItem\<close>

text \<open>
  Truthiness: a string is truthy unless empty, \<open>undefined\<close> is falsy, and a
  \<open>Date\<close> object is truthy whatever its time value. The \<open>if\<close> around the call
  turns the value of the \<open>&&\<close> chain into a boolean.
\<close>

definition truthy :: "string \<Rightarrow> bool" where
  "truthy s = (s \<noteq> [])"

definition truthyOpt :: "string option \<Rightarrow> bool" where
  "truthyOpt v = (case v of None \<Rightarrow> False | Some s \<Rightarrow> truthy s)"

definition truthyDate :: "int option \<Rightarrow> bool" where
  "truthyDate d = True"

definition isValidNewsItem :: "newsItem \<Rightarrow> bool" where
  "isValidNewsItem item =
     (truthyOpt (title item) \<and> truthy (summary item) \<and> truthy (source item)
      \<and> truthyOpt (url item) \<and> truthyDate (publishedAt item)
      \<and> (case title item of None \<Rightarrow> False | Some t \<Rightarrow> length t > 10)
      \<and> length (summary item) > 20)"

subsection \<open>Building the candidates\<close>



text \<open>\<open>String.prototype.trim\<close>, and a string operand of \<open>+\<close> that may be undefined.\<close>

definition trim :: "string \<Rightarrow> string" where
  "trim s = rev (dropWhile isWhitespace (rev (dropWhile isWhitespace s)))"

definition jsString :: "string option \<Rightarrow> string" where
  "jsString v = (case v of None \<Rightarrow> ''undefined'' | Some s \<Rightarrow> s)"

text \<open>
  \<open>a + b\<close> for two operands that are strings or undefined: the concatenation of their
  string forms when at least one is a string, and the number NaN (\<open>None\<close>) when both
  are undefined.
\<close>

definition jsPlus :: "string option \<Rightarrow> string option \<Rightarrow> string option" where
  "jsPlus a b = (if a = None \<and> b = None then None else Some (jsString a @ jsString b))"

text \<open>
  \<open>this.generateHash(a + b)\<close>: \<open>update\<close> accepts a string, and throws a TypeError
  when it is given a number.
\<close>

definition hashOf :: "(string \<Rightarrow> string) \<Rightarrow> string option \<Rightarrow> string option \<Rightarrow> error + string" where
  "hashOf generateHash a b =
     (case jsPlus a b of None \<Rightarrow> Inl TypeError | Some content \<Rightarrow> Inr (generateHash content))"

text \<open>\<open>a || b || ... || ''\<close>: the first truthy operand, else the empty string.\<close>

fun firstTruthy :: "string option list \<Rightarrow> string" where
  "firstTruthy [] = []"
| "firstTruthy (v # vs) = (if truthyOpt v then jsString v else firstTruthy vs)"

text \<open>
  An entry of a parsed feed. \<open>date\<close> is the value of
  \<open>new Date(item.pubDate || item.isoDate)\<close> (date parsing is not modelled).
  \<open>mediaContent\<close> and \<open>mediaThumbnail\<close> are \<open>None\<close> when the entry has no such
  element, \<open>Some None\<close> when the element has no attribute object \<open>$\<close>, and otherwise
  hold the \<open>url\<close> attribute, which may be undefined. \<open>enclosure\<close> holds the
  \<open>type\<close> and the \<open>url\<close> of the enclosure.
\<close>

record feedItem =
  feedTitle :: "string option"
  contentSnippet :: "string option"
  content :: "string option"
  description :: "string option"
  link :: "string option"
  date :: "int option"
  mediaContent :: "string option option option"
  mediaThumbnail :: "string option option option"
  enclosure :: "(string option \<times> string option) option"

text \<open>
  extractImage: reading \<open>.url\<close> of a missing \<open>$\<close> throws a TypeError; \<open>null\<close>
  and an undefined url are both \<open>None\<close>.
\<close>

definition extractImage :: "feedItem \<Rightarrow> error + string option" where
  "extractImage item =
     (case mediaContent item of
        Some None \<Rightarrow> Inl TypeError
      | Some (Some u) \<Rightarrow> Inr u
      | None \<Rightarrow>
          (case mediaThumbnail item of
             Some None \<Rightarrow> Inl TypeError
           | Some (Some u) \<Rightarrow> Inr u
           | None \<Rightarrow>
               (case enclosure item of
                  Some (Some ty, u) \<Rightarrow> if take 6 ty = ''image/'' then Inr u else Inr None
                | _ \<Rightarrow> Inr None)))"

text \<open>
  The object literal of fetchRSSNews. Its last two properties are the image and the
  sourceHash; when computing one of them throws, no candidate is built.
\<close>

definition rssNewsItem ::
  "(string \<Rightarrow> string) \<Rightarrow> string \<Rightarrow> string \<Rightarrow> feedItem \<Rightarrow> error + newsItem" where
  "rssNewsItem generateHash sourceName label item =
     (case extractImage item of
        Inl e \<Rightarrow> Inl e
      | Inr img \<Rightarrow>
          (case hashOf generateHash (feedTitle item) (link item) of
             Inl e \<Rightarrow> Inl e
           | Inr h \<Rightarrow>
               Inr \<lparr> title = map_option trim (feedTitle item),
                     summary = firstTruthy [contentSnippet item, content item, description item],
                     source = sourceName,
                     url = link item,
                     publishedAt = date item,
                     category = mapCategory label,
                     imageUrl = img,
                     sourceHash = h \<rparr>))"

text \<open>\<open>if (this.isValidNewsItem(newsItem)) newsItems.push(newsItem)\<close>.\<close>

definition admit :: "newsItem list \<Rightarrow> newsItem \<Rightarrow> newsItem list" where
  "admit newsItems newsItem = (if isValidNewsItem newsItem then newsItems @ [newsItem] else newsItems)"

text \<open>
  The loop over the entries of one feed, inside the \<open>try\<close> of that feed: an exception
  ends the loop, the \<open>catch\<close> logs it, and what was pushed before stays in
  \<open>newsItems\<close>.
\<close>

fun admitEntries ::
  "(string \<Rightarrow> string) \<Rightarrow> string \<Rightarrow> string \<Rightarrow> newsItem list \<Rightarrow> feedItem list \<Rightarrow> newsItem list" where
  "admitEntries generateHash sourceName label newsItems [] = newsItems"
| "admitEntries generateHash sourceName label newsItems (item # rest) =
     (case rssNewsItem generateHash sourceName label item of
        Inl e \<Rightarrow> newsItems
      | Inr newsItem \<Rightarrow>
          admitEntries generateHash sourceName label (admit newsItems newsItem) rest)"

text \<open>
  fetchRSSNews: \<open>feeds\<close> pairs each topic label of \<open>source.urls\<close> with the entries of
  the parsed feed, or \<open>None\<close> when fetching or parsing it failed (caught and logged).
\<close>

definition fetchRSSNews ::
  "(string \<Rightarrow> string) \<Rightarrow> string \<Rightarrow> (string \<times> feedItem list option) list \<Rightarrow> newsItem list" where
  "fetchRSSNews generateHash sourceName feeds =
     foldl (\<lambda>newsItems (label, feed).
              case feed of
                None \<Rightarrow> newsItems
              | Some items \<Rightarrow>
                  admitEntries generateHash sourceName label newsItems (take 10 items))
       [] feeds"

text \<open>A result of the Guardian search; the two text fields are those of \<open>article.fields\<close>.\<close>

record guardianArticle =
  webTitle :: "string option"
  trailText :: "string option"
  bodyText :: "string option"
  webUrl :: "string option"
  webPublicationDate :: "int option"
  thumbnail :: "string option"

definition guardianNewsItem ::
  "(string \<Rightarrow> string) \<Rightarrow> string \<Rightarrow> string \<Rightarrow> guardianArticle \<Rightarrow> error + newsItem" where
  "guardianNewsItem generateHash sourceName label article =
     (case hashOf generateHash (webTitle article) (webUrl article) of
        Inl e \<Rightarrow> Inl e
      | Inr h \<Rightarrow>
          Inr \<lparr> title = webTitle article,
                summary = firstTruthy [trailText article, map_option (take 300) (bodyText article)],
                source = sourceName,
                url = webUrl article,
                publishedAt = webPublicationDate article,
                category = mapCategory label,
                imageUrl = thumbnail article,
                sourceHash = h \<rparr>)"

definition guardianCategories :: "string list" where
  "guardianCategories = [''politics'', ''technology'', ''business'', ''world'']"

text \<open>The loop over the results of one section, inside the \<open>try\<close> of that section.\<close>

fun admitArticles ::
  "(string \<Rightarrow> string) \<Rightarrow> string \<Rightarrow> string \<Rightarrow> newsItem list \<Rightarrow> guardianArticle list
     \<Rightarrow> newsItem list" where
  "admitArticles generateHash sourceName label newsItems [] = newsItems"
| "admitArticles generateHash sourceName label newsItems (article # rest) =
     (case guardianNewsItem generateHash sourceName label article of
        Inl e \<Rightarrow> newsItems
      | Inr newsItem \<Rightarrow>
          admitArticles generateHash sourceName label (admit newsItems newsItem) rest)"

text \<open>
  fetchGuardianNews: \<open>respond\<close> gives the results of the request for a section, or
  \<open>None\<close> when the request failed.
\<close>

definition fetchGuardianNews ::
  "(string \<Rightarrow> string) \<Rightarrow> string \<Rightarrow> string option \<Rightarrow> (string \<Rightarrow> guardianArticle list option)
     \<Rightarrow> newsItem list" where
  "fetchGuardianNews generateHash sourceName apiKey respond =
     (if \<not> truthyOpt apiKey then []
      else foldl (\<lambda>newsItems label.
                    case respond label of
                      None \<Rightarrow> newsItems
                    | Some articles \<Rightarrow>
                        admitArticles generateHash sourceName label newsItems articles)
             [] guardianCategories)"

text \<open>The batch \<open>allNews\<close> of fetchAllNews, over the three configured sources.\<close>

definition allNews ::
  "(string \<Rightarrow> string) \<Rightarrow> (string \<times> feedItem list option) list
     \<Rightarrow> (string \<times> feedItem list option) list \<Rightarrow> string option
     \<Rightarrow> (string \<Rightarrow> guardianArticle list option) \<Rightarrow> newsItem list" where
  "allNews generateHash bbcFeeds reutersFeeds apiKey respond =
     fetchRSSNews generateHash ''BBC'' bbcFeeds
     @ fetchRSSNews generateHash ''Reuters'' reutersFeeds
     @ fetchGuardianNews generateHash ''The Guardian'' apiKey respond"





section \<open>The News model and its collection (models/News.js)\<close>

text \<open>
  A stored document. \<open>docId\<close> stands for the ObjectId \<open>_id\<close>; the other fields
  are those of the schema that the pipeline reads (\<open>content\<close>, \<open>fetchedAt\<close>,
  \<open>contentSimilarity\<close> and the timestamps are never read by it and are left out).
\<close>

record news =
  docId :: nat
  docTitle :: string
  docSummary :: string
  docSource :: string
  docUrl :: string
  docImage :: "string option"
  docCategory :: string
  docPublishedAt :: int
  isActive :: bool
  docSourceHash :: string

definition categoryEnum :: "string list" where
  "categoryEnum =
     [''politics'', ''technology'', ''business'', ''sports'', ''entertainment'', ''health'',
      ''science'', ''world'', ''general'']"

text \<open>
  \<open>new News(newsData)\<close> followed by the validation that \<open>save\<close> runs, field by
  field as the schema declares them: \<open>trim\<close> is applied when the field is set;
  \<open>required\<close> rejects a missing value and an empty string; \<open>maxlength\<close> bounds
  the length; \<open>enum\<close> lists the admissible categories (a value that is not a string is
  not among them); an invalid Date cannot be cast. \<open>isActive\<close> takes its default.
\<close>

definition validated :: "nat \<Rightarrow> newsItem \<Rightarrow> error + news" where
  "validated newId newsData =
     (case (title newsData, url newsData, publishedAt newsData, category newsData) of
        (Some t, Some u, Some p, Str c) \<Rightarrow>
          if trim t \<noteq> [] \<and> length (trim t) \<le> 500
             \<and> trim (summary newsData) \<noteq> [] \<and> length (trim (summary newsData)) \<le> 2000
             \<and> trim (source newsData) \<noteq> []
             \<and> u \<noteq> []
             \<and> c \<in> set categoryEnum
             \<and> sourceHash newsData \<noteq> []
          then Inr \<lparr> docId = newId, docTitle = trim t, docSummary = trim (summary newsData),
                     docSource = trim (source newsData), docUrl = u, docImage = imageUrl newsData,
                     docCategory = c, docPublishedAt = p, isActive = True,
                     docSourceHash = sourceHash newsData \<rparr>
          else Inl ValidationError
      | _ \<Rightarrow> Inl ValidationError)"

text \<open>An identifier no stored document has.\<close>

definition freshId :: "news list \<Rightarrow> nat" where
  "freshId coll = Suc (foldr max (map docId coll) 0)"

text \<open>
  \<open>News.findOne({ $or: [{ url }, { sourceHash }] })\<close>. Every candidate that passed
  the gate has a string url; a candidate without one is matched on its sourceHash only.
\<close>

definition matches :: "newsItem \<Rightarrow> news \<Rightarrow> bool" where
  "matches newsData d = (url newsData = Some (docUrl d) \<or> sourceHash newsData = docSourceHash d)"

definition findOne :: "news list \<Rightarrow> newsItem \<Rightarrow> news option" where
  "findOne coll newsData = find (matches newsData) coll"

text \<open>
  \<open>news.save()\<close>: validation, then the insert, which the unique index on \<open>url\<close>
  refuses when a stored document has the same url.
\<close>

definition save :: "news list \<Rightarrow> newsItem \<Rightarrow> error + (news \<times> news list)" where
  "save coll newsData =
     (case validated (freshId coll) newsData of
        Inl e \<Rightarrow> Inl e
      | Inr d \<Rightarrow>
          if docUrl d \<in> set (map docUrl coll) then Inl DuplicateKeyError
          else Inr (d, coll @ [d]))"

text \<open>
  \<open>News.find(filter).sort({ publishedAt: -1 }).limit(limit).skip(offset)\<close>: the
  query skips before it limits, whatever the order of the calls, and a limit of 0 is no
  limit. Documents with equal publishedAt stay in insertion order.
\<close>

definition findSorted :: "(news \<Rightarrow> bool) \<Rightarrow> nat \<Rightarrow> nat \<Rightarrow> news list \<Rightarrow> news list" where
  "findSorted p limit offset coll =
     (let skipped = drop offset (sort_key (\<lambda>d. - docPublishedAt d) (filter p coll))
      in if limit = 0 then skipped else take limit skipped)"

section \<open>The Redis client (config/redis.js) as the service uses it\<close>

text \<open>
  The keys the service writes: \<open>news:<id>\<close>, \<open>news:category:<category>\<close> and
  \<open>news:latest\<close>. The string stored under \<open>news:<id>\<close> is the JSON text of the
  document, modelled by the document. \<open>ttl\<close> holds the time to live, in seconds, of the
  keys that have one. \<open>faults\<close> says, for each of the coming commands in turn, whether
  the server refuses it (the promise rejects); after the list every command is served.
\<close>

datatype key = NewsKey nat | CategoryKey string | LatestKey

record redis =
  kv :: "key \<rightharpoonup> news"
  lst :: "key \<rightharpoonup> nat list"
  ttl :: "key \<rightharpoonup> nat"
  faults :: "bool list"

text \<open>Every command first learns whether it is served.\<close>

definition served :: "redis \<Rightarrow> (error \<times> redis) + redis" where
  "served r =
     (case faults r of
        [] \<Rightarrow> Inr r
      | refused # fs \<Rightarrow>
          if refused then Inl (RedisError, r \<lparr> faults := fs \<rparr>) else Inr (r \<lparr> faults := fs \<rparr>))"

text \<open>The elements from index \<open>start\<close> to \<open>stop\<close>, both inclusive, negative indices counting from the end.\<close>

definition listRange :: "'a list \<Rightarrow> int \<Rightarrow> int \<Rightarrow> 'a list" where
  "listRange xs start stop =
     (let n = int (length xs);
          s = max 0 (if start < 0 then n + start else start);
          e = min (n - 1) (if stop < 0 then n + stop else stop)
      in if s > e then [] else take (nat (e - s + 1)) (drop (nat s) xs))"

definition setEx :: "redis \<Rightarrow> key \<Rightarrow> nat \<Rightarrow> news \<Rightarrow> (error \<times> redis) + redis" where
  "setEx r k seconds v =
     (case served r of
        Inl e \<Rightarrow> Inl e
      | Inr r' \<Rightarrow> Inr (r' \<lparr> kv := (kv r')(k \<mapsto> v), ttl := (ttl r')(k \<mapsto> seconds) \<rparr>))"

definition lPush :: "redis \<Rightarrow> key \<Rightarrow> nat \<Rightarrow> (error \<times> redis) + redis" where
  "lPush r k v =
     (case served r of
        Inl e \<Rightarrow> Inl e
      | Inr r' \<Rightarrow>
          Inr (r' \<lparr> lst := (lst r')(k \<mapsto> v # (case lst r' k of None \<Rightarrow> [] | Some xs \<Rightarrow> xs)) \<rparr>))"

definition expire :: "redis \<Rightarrow> key \<Rightarrow> nat \<Rightarrow> (error \<times> redis) + redis" where
  "expire r k seconds =
     (case served r of
        Inl e \<Rightarrow> Inl e
      | Inr r' \<Rightarrow>
          Inr (if kv r' k \<noteq> None \<or> lst r' k \<noteq> None then r' \<lparr> ttl := (ttl r')(k \<mapsto> seconds) \<rparr>
               else r'))"

definition lTrim :: "redis \<Rightarrow> key \<Rightarrow> int \<Rightarrow> int \<Rightarrow> (error \<times> redis) + redis" where
  "lTrim r k start stop =
     (case served r of
        Inl e \<Rightarrow> Inl e
      | Inr r' \<Rightarrow>
          Inr (case lst r' k of
                 None \<Rightarrow> r'
               | Some xs \<Rightarrow>
                   if listRange xs start stop = []
                   then r' \<lparr> lst := (lst r')(k := None), ttl := (ttl r')(k := None) \<rparr>
                   else r' \<lparr> lst := (lst r')(k \<mapsto> listRange xs start stop) \<rparr>))"

definition lRange :: "redis \<Rightarrow> key \<Rightarrow> int \<Rightarrow> int \<Rightarrow> (error \<times> redis) + (nat list \<times> redis)" where
  "lRange r k start stop =
     (case served r of
        Inl e \<Rightarrow> Inl e
      | Inr r' \<Rightarrow> Inr (case lst r' k of None \<Rightarrow> [] | Some xs \<Rightarrow> listRange xs start stop, r'))"

definition get :: "redis \<Rightarrow> key \<Rightarrow> (error \<times> redis) + (news option \<times> redis)" where
  "get r k = (case served r of Inl e \<Rightarrow> Inl e | Inr r' \<Rightarrow> Inr (kv r' k, r'))"

definition emptyRedis :: redis where
  "emptyRedis = \<lparr> kv = Map.empty, lst = Map.empty, ttl = Map.empty, faults = [] \<rparr>"

section \<open>The WebSocket fan-out (websocket/socketHandler.js)\<close>

text \<open>
  What the server has emitted, oldest first: the \<open>news:update\<close> event to every client,
  with the batch and its count, and the \<open>news:category_update\<close> event to the room of a
  category, with one document (the timestamps of the payloads are left out).
  \<open>emitFaults\<close> says, for each of the coming emits in turn, whether the transport throws.
\<close>

datatype emission = NewsUpdate "news list" nat | CategoryUpdate string news

record socketServer =
  emitted :: "emission list"
  emitFaults :: "bool list"

definition emit :: "socketServer \<Rightarrow> emission \<Rightarrow> (error \<times> socketServer) + socketServer" where
  "emit s e =
     (case emitFaults s of
        [] \<Rightarrow> Inr (s \<lparr> emitted := emitted s @ [e] \<rparr>)
      | thrown # fs \<Rightarrow>
          if thrown then Inl (TransportError, s \<lparr> emitFaults := fs \<rparr>)
          else Inr (s \<lparr> emitted := emitted s @ [e], emitFaults := fs \<rparr>))"

text \<open>The \<open>newsItems.forEach\<close> of broadcastNews: the first throw ends it.\<close>

fun emitEach :: "socketServer \<Rightarrow> news list \<Rightarrow> (error \<times> socketServer) + socketServer" where
  "emitEach s [] = Inr s"
| "emitEach s (newsItem # rest) =
     (case emit s (CategoryUpdate (docCategory newsItem) newsItem) of
        Inl e \<Rightarrow> Inl e
      | Inr s' \<Rightarrow> emitEach s' rest)"

text \<open>The body of the \<open>try\<close> block.\<close>

definition broadcastBody :: "socketServer \<Rightarrow> news list \<Rightarrow> (error \<times> socketServer) + socketServer" where
  "broadcastBody s newsItems =
     (case emit s (NewsUpdate newsItems (length newsItems)) of
        Inl e \<Rightarrow> Inl e
      | Inr s' \<Rightarrow> emitEach s' newsItems)"

text \<open>
  broadcastNews, on the module variable \<open>io\<close> (\<open>None\<close> until initializeSocket has
  run): \<open>Inl\<close> would be an exception leaving the function, \<open>Inr\<close> is the normal return
  with the server as the call leaves it.
\<close>

definition broadcastNews :: "socketServer option \<Rightarrow> news list \<Rightarrow> error + socketServer option" where
  "broadcastNews io newsItems =
     (case io of
        None \<Rightarrow> Inr None
      | Some s \<Rightarrow>
          (case broadcastBody s newsItems of
             Inl (e, s') \<Rightarrow> Inr (Some s')
           | Inr s' \<Rightarrow> Inr (Some s')))"

section \<open>Persisting, caching and reading (services/newsService.js)\<close>

text \<open>What the service works on: the collection, \<open>getRedisClient()\<close> and \<open>io\<close>.\<close>

record backend =
  collection :: "news list"
  redisClient :: "redis option"
  ioServer :: "socketServer option"

subsection \<open>cacheNews\<close>

text \<open>The five commands of the \<open>try\<close> block, in order; a refused command ends it.\<close>

definition cacheWrites :: "redis \<Rightarrow> news \<Rightarrow> (error \<times> redis) + redis" where
  "cacheWrites r n =
     (case setEx r (NewsKey (docId n)) 3600 n of
        Inl e \<Rightarrow> Inl e
      | Inr r1 \<Rightarrow>
     (case lPush r1 (CategoryKey (docCategory n)) (docId n) of
        Inl e \<Rightarrow> Inl e
      | Inr r2 \<Rightarrow>
     (case expire r2 (CategoryKey (docCategory n)) 3600 of
        Inl e \<Rightarrow> Inl e
      | Inr r3 \<Rightarrow>
     (case lPush r3 LatestKey (docId n) of
        Inl e \<Rightarrow> Inl e
      | Inr r4 \<Rightarrow> lTrim r4 LatestKey 0 99))))"

text \<open>cacheNews: nothing without a client; an error is caught and logged.\<close>

definition cacheNews :: "redis option \<Rightarrow> news \<Rightarrow> error + redis option" where
  "cacheNews client n =
     (case client of
        None \<Rightarrow> Inr None
      | Some r \<Rightarrow>
          (case cacheWrites r n of
             Inl (e, r') \<Rightarrow> Inr (Some r')
           | Inr r' \<Rightarrow> Inr (Some r')))"

subsection \<open>saveNews\<close>

text \<open>
  The body of the loop, inside its \<open>try\<close>: the existence check, the insert, the push to
  \<open>savedNews\<close> and the cache write. An error of the insert or of cacheNews is caught and
  logged, and the loop goes on; what was done before the error stays done.
\<close>

definition saveOne :: "backend \<times> news list \<Rightarrow> newsItem \<Rightarrow> backend \<times> news list" where
  "saveOne state newsData =
     (case state of
        (b, savedNews) \<Rightarrow>
          (case findOne (collection b) newsData of
             Some existing \<Rightarrow> (b, savedNews)
           | None \<Rightarrow>
               (case save (collection b) newsData of
                  Inl e \<Rightarrow> (b, savedNews)
                | Inr (n, coll) \<Rightarrow>
                    (case cacheNews (redisClient b) n of
                       Inl e \<Rightarrow> (b \<lparr> collection := coll \<rparr>, savedNews @ [n])
                     | Inr client \<Rightarrow>
                         (b \<lparr> collection := coll, redisClient := client \<rparr>, savedNews @ [n])))))"

text \<open>saveNews: the loop, then the broadcast, which is outside every \<open>try\<close>.\<close>

definition saveNews :: "backend \<Rightarrow> newsItem list \<Rightarrow> error + (backend \<times> news list)" where
  "saveNews b newsItems =
     (case foldl saveOne (b, []) newsItems of
        (b', savedNews) \<Rightarrow>
          if length savedNews > 0
          then (case broadcastNews (ioServer b') savedNews of
                  Inl e \<Rightarrow> Inl e
                | Inr sock \<Rightarrow> Inr (b' \<lparr> ioServer := sock \<rparr>, savedNews))
          else Inr (b', savedNews))"

subsection \<open>getLatestNews and getNewsByCategory\<close>

text \<open>\<open>Promise.all\<close> over the ids, each \<open>redis.get\<close> followed by \<open>JSON.parse\<close>.\<close>

fun getEach :: "redis \<Rightarrow> nat list \<Rightarrow> (error \<times> redis) + (news option list \<times> redis)" where
  "getEach r [] = Inr ([], r)"
| "getEach r (i # ids) =
     (case get r (NewsKey i) of
        Inl e \<Rightarrow> Inl e
      | Inr (cached, r') \<Rightarrow>
          (case getEach r' ids of
             Inl e \<Rightarrow> Inl e
           | Inr (cachedNews, r'') \<Rightarrow> Inr (cached # cachedNews, r'')))"

text \<open>\<open>cachedNews.filter(Boolean)\<close>.\<close>

definition filterBoolean :: "news option list \<Rightarrow> news list" where
  "filterBoolean cachedNews = List.map_filter (\<lambda>c. c) cachedNews"

text \<open>
  getLatestNews. The whole body is in one \<open>try\<close> whose \<open>catch\<close> logs the error and
  throws it again: \<open>Inl\<close> is that exception.
\<close>

definition getLatestNews :: "backend \<Rightarrow> nat \<Rightarrow> nat \<Rightarrow> error + news list" where
  "getLatestNews b limit offset =
     (let fromStore = findSorted isActive limit offset (collection b)
      in case redisClient b of
           None \<Rightarrow> Inr fromStore
         | Some r \<Rightarrow>
             (case lRange r LatestKey (int offset) (int offset + int limit - 1) of
                Inl (e, r') \<Rightarrow> Inl e
              | Inr (cachedIds, r1) \<Rightarrow>
                  if length cachedIds > 0
                  then (case getEach r1 cachedIds of
                          Inl (e, r') \<Rightarrow> Inl e
                        | Inr (cachedNews, r2) \<Rightarrow>
                            if length (filterBoolean cachedNews) > 0
                            then Inr (filterBoolean cachedNews)
                            else Inr fromStore)
                  else Inr fromStore))"

text \<open>getNewsByCategory: the query only; its \<open>catch\<close> has nothing of the model to catch.\<close>

definition getNewsByCategory :: "backend \<Rightarrow> string \<Rightarrow> nat \<Rightarrow> nat \<Rightarrow> error + news list" where
  "getNewsByCategory b categoryName limit offset =
     Inr (findSorted (\<lambda>d. docCategory d = categoryName \<and> isActive d) limit offset (collection b))"

subsection \<open>fetchAllNews\<close>

text \<open>
  One cycle, from the batch of the adapters on: an exception of the Dedup Engine or of
  saveNews leaves fetchAllNews, which returns the deduplicated batch.
\<close>

definition fetchAllNews ::
  "(string \<Rightarrow> string) \<Rightarrow> (string \<Rightarrow> string \<Rightarrow> real) \<Rightarrow> backend \<Rightarrow> newsItem list
     \<Rightarrow> error + (backend \<times> newsItem list)" where
  "fetchAllNews lower sim b batch =
     (case processAndDeduplicateNews lower sim batch of
        Inl e \<Rightarrow> Inl e
      | Inr processedNews \<Rightarrow>
          (case saveNews b processedNews of
             Inl e \<Rightarrow> Inl e
           | Inr (b', savedNews) \<Rightarrow> Inr (b', processedNews)))"

section \<open>The scheduler (services/newsScheduler.js)\<close>

text \<open>
  NewsScheduler after \<open>start()\<close>, as a transition system over the callbacks the event
  loop runs. A call of fetchAllNews is in progress from the callback that starts it until
  its promise settles. \<open>cronFetches\<close> and \<open>startupFetches\<close> count the calls in
  progress that the cron job and the start-up timer started; \<open>fetchCalls\<close> counts every
  call started so far; \<open>startupPending\<close> holds until the timer of \<open>start()\<close> fires.
\<close>

record scheduler =
  isRunning :: bool
  cronFetches :: nat
  startupFetches :: nat
  startupPending :: bool
  fetchCalls :: nat

datatype event =
    CronTick
  | CronSettled "error option"
  | StartupTimer
  | StartupSettled "error option"

definition started :: scheduler where
  "started = \<lparr> isRunning = False, cronFetches = 0, startupFetches = 0, startupPending = True,
               fetchCalls = 0 \<rparr>"

text \<open>
  \<open>CronTick\<close> is the callback of the five-minute job up to its \<open>await\<close>;
  \<open>CronSettled\<close> is the rest of it, with the error when the promise rejected: the
  \<open>catch\<close> logs, the \<open>finally\<close> clears the flag. \<open>StartupTimer\<close> is the callback
  of \<open>setTimeout\<close>, \<open>StartupSettled\<close> the settling of its promise, whose \<open>catch\<close>
  logs. An event that cannot occur in a state gives \<open>None\<close>.
\<close>

fun step :: "scheduler \<Rightarrow> event \<Rightarrow> scheduler option" where
  "step s CronTick =
     (if isRunning s then Some s
      else Some (s \<lparr> isRunning := True, cronFetches := cronFetches s + 1,
                     fetchCalls := fetchCalls s + 1 \<rparr>))"
| "step s (CronSettled outcome) =
     (if cronFetches s = 0 then None
      else (case outcome of
              Some e \<Rightarrow> Some (s \<lparr> cronFetches := cronFetches s - 1, isRunning := False \<rparr>)
            | None \<Rightarrow> Some (s \<lparr> cronFetches := cronFetches s - 1, isRunning := False \<rparr>)))"
| "step s StartupTimer =
     (if startupPending s
      then Some (s \<lparr> startupPending := False, startupFetches := startupFetches s + 1,
                     fetchCalls := fetchCalls s + 1 \<rparr>)
      else None)"
| "step s (StartupSettled outcome) =
     (if startupFetches s = 0 then None
      else Some (s \<lparr> startupFetches := startupFetches s - 1 \<rparr>))"

fun run :: "scheduler \<Rightarrow> event list \<Rightarrow> scheduler option" where
  "run s [] = Some s"
| "run s (e # es) = (case step s e of None \<Rightarrow> None | Some s' \<Rightarrow> run s' es)"

text \<open>The calls of fetchAllNews in progress.\<close>

definition inProgress :: "scheduler \<Rightarrow> nat" where
  "inProgress s = cronFetches s + startupFetches s"

section \<open>States and candidates of the closed examples\<close>

definition emptyBackend :: backend where
  "emptyBackend = \<lparr> collection = [], redisClient = Some emptyRedis, ioServer = None \<rparr>"

text \<open>\<open>senateT1\<close> as the collection stores it, with identifier \<open>i\<close>.\<close>

definition senateDoc :: "nat \<Rightarrow> news" where
  "senateDoc i = \<lparr> docId = i, docTitle = ''Senate Passes New Budget Bill'',
       docSummary = ''The Senate approved the budget bill late on Tuesday.'',
       docSource = ''BBC'', docUrl = ''http://feeds.example.org/a'', docImage = None,
       docCategory = ''politics'', docPublishedAt = 1700000000000, isActive = True,
       docSourceHash = ''368756208fed4b41af18fe714e1e5e79'' \<rparr>"

text \<open>A candidate that passes the gate, with a summary of 2001 characters.\<close>

definition longSummaryItem :: newsItem where
  "longSummaryItem = senateT1 \<lparr> summary := replicate 2001 CHR ''a'' \<rparr>"

text \<open>The same link as \<open>senateT1\<close> under another title, hence another sourceHash.\<close>

definition retitledItem :: newsItem where
  "retitledItem = senateT1 \<lparr> title := Some ''Budget Bill Clears the Senate'',
       sourceHash := ''713cd994a585772483f4b9ac6f6c6b93'' \<rparr>"

text \<open>
  Stored articles of the topic \<open>politics\<close>, one for each identifier, with different
  titles and links; \<open>hex32 i\<close>, a string of 32 hexadecimal digits, is in the place of
  the digest.
\<close>

definition hex32 :: "nat \<Rightarrow> string" where
  "hex32 i = map (\<lambda>j. ''0123456789abcdef'' ! ((i div 16 ^ (31 - j)) mod 16)) [0..<32]"

definition politicsDoc :: "nat \<Rightarrow> news" where
  "politicsDoc i = \<lparr> docId = i,
       docTitle = ''Budget debate in the Senate, day '' @ replicate i CHR ''I'',
       docSummary = ''What the Senate discussed about the budget today.'',
       docSource = ''BBC'',
       docUrl = ''http://feeds.example.org/politics/'' @ replicate i CHR ''i'',
       docImage = None, docCategory = ''politics'',
       docPublishedAt = 1700000000000 + 300000 * int i, isActive = True,
       docSourceHash = hex32 i \<rparr>"

text \<open>The cache writes of successive inserts: cacheNews for each document in turn.\<close>

definition cacheAll :: "redis option \<Rightarrow> news list \<Rightarrow> redis option" where
  "cacheAll client docs =
     foldl (\<lambda>cl n. case cacheNews cl n of Inl e \<Rightarrow> cl | Inr cl' \<Rightarrow> cl') client docs"

text \<open>The length of the list under a key, 0 when the key is absent.\<close>

definition llen :: "redis \<Rightarrow> key \<Rightarrow> nat" where
  "llen r k = (case lst r k of None \<Rightarrow> 0 | Some xs \<Rightarrow> length xs)"

text \<open>
  The documents the cache holds for the window of a latest read: the identifiers of the
  latest list from \<open>offset\<close> on, \<open>limit\<close> of them, each looked up under its own key.
\<close>

definition cachedLatest :: "redis \<Rightarrow> nat \<Rightarrow> nat \<Rightarrow> news list" where
  "cachedLatest r limit offset =
     filterBoolean
       (map (\<lambda>i. kv r (NewsKey i))
          (case lst r LatestKey of
             None \<Rightarrow> []
           | Some xs \<Rightarrow> listRange xs (int offset) (int offset + int limit - 1)))"

text \<open>
  A backend in which \<open>senateDoc 1\<close> was inserted and cached, and then deactivated in the
  collection (the admin route does that) while its cache entries are still alive.
\<close>

definition deactivatedBackend :: backend where
  "deactivatedBackend =
     \<lparr> collection = [(senateDoc 1) \<lparr> isActive := False \<rparr>],
       redisClient = cacheAll (Some emptyRedis) [senateDoc 1],
       ioServer = None \<rparr>"

text \<open>A backend whose collection holds \<open>senateDoc 1\<close> and whose Redis server refuses the next command.\<close>

definition failingCacheBackend :: backend where
  "failingCacheBackend =
     \<lparr> collection = [senateDoc 1],
       redisClient = Some (emptyRedis \<lparr> faults := [True] \<rparr>),
       ioServer = None \<rparr>"

section \<open>Properties of the exact-duplicate phase\<close>

lemma has_iff: "has m k \<longleftrightarrow> k \<in> set (map fst m)"
  by (simp add: has_def map_of_eq_None_iff)

lemma collectUnique_firstSeen:
  "collectUnique m items = m @ map (\<lambda>i. (sourceHash i, i)) (firstSeen (map fst m) items)"
  by (induction items arbitrary: m) (simp_all add: has_iff mapSet_def)

lemma uniqueItems_firstSeen: "uniqueItems items = firstSeen [] items"
  by (simp add: uniqueItems_def collectUnique_firstSeen comp_def)

lemma firstSeen_subseq: "subseq (firstSeen seen items) items"
  by (induction items arbitrary: seen) (simp_all add: list_emb_Cons)

lemma firstSeen_hash_notin:
  "x \<in> set (firstSeen seen items) \<Longrightarrow> sourceHash x \<notin> set seen"
proof (induction items arbitrary: seen)
  case Nil
  then show ?case by simp
next
  case (Cons item items)
  show ?case
  proof (cases "sourceHash item \<in> set seen")
    case True
    with Cons.prems have "x \<in> set (firstSeen seen items)" by simp
    then show ?thesis by (rule Cons.IH)
  next
    case False
    with Cons.prems
    consider "x = item" | "x \<in> set (firstSeen (seen @ [sourceHash item]) items)" by auto
    then show ?thesis
    proof cases
      case 1
      with False show ?thesis by simp
    next
      case 2
      then have "sourceHash x \<notin> set (seen @ [sourceHash item])" by (rule Cons.IH)
      then show ?thesis by simp
    qed
  qed
qed

lemma firstSeen_distinct: "distinct (map sourceHash (firstSeen seen items))"
  by (induction items arbitrary: seen) (auto dest: firstSeen_hash_notin)

lemma firstSeen_covers:
  "x \<in> set items \<Longrightarrow> sourceHash x \<notin> set seen
     \<Longrightarrow> \<exists>y\<in>set (firstSeen seen items). sourceHash y = sourceHash x"
proof (induction items arbitrary: seen)
  case Nil
  then show ?case by simp
next
  case (Cons item items)
  show ?case
  proof (cases "sourceHash item \<in> set seen")
    case True
    with Cons.prems have "x \<in> set items" by auto
    from Cons.IH [OF this Cons.prems(2)] True show ?thesis by simp
  next
    case False
    show ?thesis
    proof (cases "sourceHash x = sourceHash item")
      case True
      with False show ?thesis by auto
    next
      case neq: False
      with Cons.prems have "x \<in> set items"
        and "sourceHash x \<notin> set (seen @ [sourceHash item])" by auto
      from Cons.IH [OF this] False show ?thesis by simp
    qed
  qed
qed

lemma firstSeen_find:
  "y \<in> set (firstSeen seen items)
     \<Longrightarrow> find (\<lambda>x. sourceHash x = sourceHash y) items = Some y"
proof (induction items arbitrary: seen)
  case Nil
  then show ?case by simp
next
  case (Cons item items)
  show ?case
  proof (cases "sourceHash item \<in> set seen")
    case True
    with Cons.prems have y: "y \<in> set (firstSeen seen items)" by simp
    then have "sourceHash y \<notin> set seen" by (rule firstSeen_hash_notin)
    with True have "sourceHash item \<noteq> sourceHash y" by auto
    with Cons.IH [OF y] show ?thesis by simp
  next
    case False
    with Cons.prems
    consider "y = item" | "y \<in> set (firstSeen (seen @ [sourceHash item]) items)" by auto
    then show ?thesis
    proof cases
      case 1
      then show ?thesis by simp
    next
      case 2
      then have "sourceHash y \<notin> set (seen @ [sourceHash item])" by (rule firstSeen_hash_notin)
      then have "sourceHash item \<noteq> sourceHash y" by auto
      with Cons.IH [OF 2] show ?thesis by simp
    qed
  qed
qed

section \<open>Properties of the near-duplicate phase\<close>

lemma isDuplicate_titles:
  assumes "title item \<noteq> None" and "\<forall>e\<in>set es. title e \<noteq> None"
  shows "isDuplicate lower sim item es = Inr (\<exists>e\<in>set es. tooSimilar lower sim item e)"
  using assms
  by (induction es) (auto simp: tooSimilar_def titleSimilarity_def)

lemma nearDedup_append:
  "nearDedup lower sim p (xs @ ys) =
     (case nearDedup lower sim p xs of Inl e \<Rightarrow> Inl e | Inr acc \<Rightarrow> nearDedup lower sim acc ys)"
  by (induction xs arbitrary: p) (simp_all split: sum.splits)

lemma nearDedup_extends:
  "nearDedup lower sim p items = Inr out \<Longrightarrow> \<exists>rest. out = p @ rest \<and> subseq rest items"
proof (induction items arbitrary: p)
  case Nil
  then show ?case by simp
next
  case (Cons item items)
  from Cons.prems obtain dup where dup: "isDuplicate lower sim item p = Inr dup"
    and run: "nearDedup lower sim (if dup then p else p @ [item]) items = Inr out"
    by (auto split: sum.splits)
  from Cons.IH [OF run] obtain rest
    where rest: "out = (if dup then p else p @ [item]) @ rest" and sub: "subseq rest items"
    by blast
  show ?case
  proof (cases dup)
    case True
    with rest sub show ?thesis by (auto simp: list_emb_Cons)
  next
    case False
    with rest have "out = p @ (item # rest)" by simp
    moreover from sub have "subseq (item # rest) (item # items)" by simp
    ultimately show ?thesis by blast
  qed
qed

lemma nearDedup_total:
  assumes "\<forall>i\<in>set p. title i \<noteq> None" and "\<forall>i\<in>set items. title i \<noteq> None"
  shows "\<exists>out. nearDedup lower sim p items = Inr out"
  using assms
proof (induction items arbitrary: p)
  case Nil
  then show ?case by simp
next
  case (Cons item items)
  then have "isDuplicate lower sim item p = Inr (\<exists>e\<in>set p. tooSimilar lower sim item e)"
    by (intro isDuplicate_titles) simp_all
  moreover have "\<exists>out. nearDedup lower sim (if b then p else p @ [item]) items = Inr out" for b
    using Cons.prems by (intro Cons.IH) auto
  ultimately show ?case by simp
qed

text \<open>
  The decision taken for the candidate \<open>x\<close>: \<open>acc\<close> is the accepted list at the
  moment \<open>x\<close> is scanned, and \<open>x\<close> is in the result exactly when the inner loop
  found no match in \<open>acc\<close>.
\<close>

lemma nearDedup_decision:
  assumes run: "nearDedup lower sim [] (pre @ x # post) = Inr out"
    and dist: "distinct (pre @ x # post)"
  shows "\<exists>acc dup. nearDedup lower sim [] pre = Inr acc \<and> prefix acc out \<and>
           set acc = set pre \<inter> set out \<and>
           isDuplicate lower sim x acc = Inr dup \<and> (x \<in> set out \<longleftrightarrow> \<not> dup)"
proof -
  from run obtain acc where acc: "nearDedup lower sim [] pre = Inr acc"
    and step: "nearDedup lower sim acc (x # post) = Inr out"
    by (auto simp: nearDedup_append split: sum.splits)
  from step obtain dup where dup: "isDuplicate lower sim x acc = Inr dup"
    and rest: "nearDedup lower sim (if dup then acc else acc @ [x]) post = Inr out"
    by (auto split: sum.splits)
  from nearDedup_extends [OF acc] have accsub: "set acc \<subseteq> set pre"
    by (auto dest: list_emb_set)
  from nearDedup_extends [OF rest] obtain r
    where out: "out = (if dup then acc else acc @ [x]) @ r" and r: "subseq r post"
    by blast
  from r have rsub: "set r \<subseteq> set post" by (auto dest: list_emb_set)
  have "prefix acc out" using out by (cases dup) (simp_all add: prefix_def)
  moreover have "x \<in> set out \<longleftrightarrow> \<not> dup"
  proof (cases dup)
    case True
    with out have "set out \<subseteq> set pre \<union> set post" using accsub rsub by auto
    with dist True show ?thesis by auto
  next
    case False
    with out show ?thesis by simp
  qed
  moreover have "set acc = set pre \<inter> set out"
  proof
    from out have "set acc \<subseteq> set out" by (cases dup) auto
    with accsub show "set acc \<subseteq> set pre \<inter> set out" by blast
    show "set pre \<inter> set out \<subseteq> set acc"
    proof
      fix e
      assume e: "e \<in> set pre \<inter> set out"
      with dist have "e \<noteq> x" "e \<notin> set post" by auto
      with rsub have "e \<notin> set r" by blast
      with e \<open>e \<noteq> x\<close> out show "e \<in> set acc" by (cases dup) auto
    qed
  qed
  ultimately show ?thesis using acc dup by blast
qed

text \<open>When no candidate is a match of an item before it, every candidate is accepted.\<close>

lemma nearDedup_keeps_all:
  assumes "\<forall>i\<in>set (p @ items). title i \<noteq> None" and "distinct (p @ items)"
    and "\<forall>x\<in>set (p @ items). \<forall>y\<in>set (p @ items). x \<noteq> y \<longrightarrow> \<not> tooSimilar lower sim x y"
  shows "nearDedup lower sim p items = Inr (p @ items)"
  using assms
proof (induction items arbitrary: p)
  case Nil
  then show ?case by simp
next
  case (Cons item items)
  have "isDuplicate lower sim item p = Inr (\<exists>e\<in>set p. tooSimilar lower sim item e)"
    using Cons.prems(1) by (intro isDuplicate_titles) simp_all
  moreover have "\<not> (\<exists>e\<in>set p. tooSimilar lower sim item e)"
    using Cons.prems(2,3) by auto
  ultimately have dup: "isDuplicate lower sim item p = Inr False" by simp
  have "nearDedup lower sim (p @ [item]) items = Inr ((p @ [item]) @ items)"
    using Cons.prems by (intro Cons.IH) simp_all
  with dup show ?case by simp
qed

text \<open>The first candidate is always accepted.\<close>

lemma nearDedup_first:
  assumes "nearDedup lower sim [] items = Inr out"
  shows "take 1 out = take 1 items"
proof (cases items)
  case Nil
  with assms show ?thesis by simp
next
  case (Cons x rest)
  with assms have "nearDedup lower sim [x] rest = Inr out" by simp
  from nearDedup_extends [OF this] Cons show ?thesis by auto
qed

section \<open>The example titles, evaluated\<close>

lemma lower_T1: "toLowerCase ''Senate Passes New Budget Bill'' = ''senate passes new budget bill''"
  by code_simp

lemma lower_T2:
  "toLowerCase ''Senate passes new budget bill today'' = ''senate passes new budget bill today''"
  by code_simp

lemma lower_other:
  "toLowerCase ''Completely Different Story About Y'' = ''completely different story about y''"
  by code_simp

lemma squeeze_T1:
  "filter (\<lambda>c. \<not> isWhitespace c) ''senate passes new budget bill'' = ''senatepassesnewbudgetbill''"
  by code_simp

lemma squeeze_T2:
  "filter (\<lambda>c. \<not> isWhitespace c) ''senate passes new budget bill today''
     = ''senatepassesnewbudgetbilltoday''"
  by code_simp

lemma squeeze_other:
  "filter (\<lambda>c. \<not> isWhitespace c) ''completely different story about y''
     = ''completelydifferentstoryabouty''"
  by code_simp

lemma shared_T1_T2:
  "intersectionSize (bigrams ''senatepassesnewbudgetbill'') (bigrams ''senatepassesnewbudgetbilltoday'') = 24"
  by code_simp

lemma shared_T2_T1:
  "intersectionSize (bigrams ''senatepassesnewbudgetbilltoday'') (bigrams ''senatepassesnewbudgetbill'') = 24"
  by code_simp

lemma shared_other_T1:
  "intersectionSize (bigrams ''completelydifferentstoryabouty'') (bigrams ''senatepassesnewbudgetbill'') = 3"
  by code_simp

lemma score_T2_T1:
  "compareTwoStrings (toLowerCase ''Senate passes new budget bill today'')
     (toLowerCase ''Senate Passes New Budget Bill'') = 48 / 53"
  unfolding lower_T1 lower_T2 compareTwoStrings_def squeeze_T1 squeeze_T2 Let_def shared_T2_T1
  by simp

lemma score_T1_T2:
  "compareTwoStrings (toLowerCase ''Senate Passes New Budget Bill'')
     (toLowerCase ''Senate passes new budget bill today'') = 48 / 53"
  unfolding lower_T1 lower_T2 compareTwoStrings_def squeeze_T1 squeeze_T2 Let_def shared_T1_T2
  by simp

lemma score_other_T1:
  "compareTwoStrings (toLowerCase ''Completely Different Story About Y'')
     (toLowerCase ''Senate Passes New Budget Bill'') = 6 / 53"
  unfolding lower_T1 lower_other compareTwoStrings_def squeeze_T1 squeeze_other Let_def shared_other_T1
  by simp

lemma above_threshold: "(48 / 53 :: real) > threshold"
  by (simp add: threshold_def)

section \<open>Claims about the Dedup Engine\<close>

lemma uniqueItems_distinct: "distinct (uniqueItems items)"
proof -
  have "distinct (map sourceHash (uniqueItems items))"
    by (simp add: uniqueItems_firstSeen firstSeen_distinct)
  then show ?thesis by (simp add: distinct_map)
qed

lemma uniqueItems_titled:
  "\<forall>i\<in>set items. title i \<noteq> None \<Longrightarrow> \<forall>i\<in>set (uniqueItems items). title i \<noteq> None"
  using firstSeen_subseq [of "[]" items] by (auto simp: uniqueItems_firstSeen dest: list_emb_set)

lemma process_total:
  "\<forall>i\<in>set items. title i \<noteq> None \<Longrightarrow> \<exists>out. processAndDeduplicateNews lower sim items = Inr out"
  unfolding processAndDeduplicateNews_def
  by (rule nearDedup_total) (simp_all add: uniqueItems_titled)

lemma process_pair:
  assumes "title a = Some ta" and "title b = Some tb" and "sim (lower tb) (lower ta) > threshold"
  shows "processAndDeduplicateNews lower sim [a, b] = Inr [a]"
  using assms
  by (simp add: processAndDeduplicateNews_def uniqueItems_def has_def mapSet_def titleSimilarity_def)

lemma tooSimilar_iff:
  "tooSimilar lower sim x e \<longleftrightarrow>
     (\<exists>t te. title x = Some t \<and> title e = Some te \<and> sim (lower t) (lower te) > threshold)"
  by (auto simp: tooSimilar_def titleSimilarity_def split: option.splits)

lemma process_unique:
  assumes "processAndDeduplicateNews lower sim items = Inr out"
  shows "subseq out (uniqueItems items)"
proof -
  from assms have "nearDedup lower sim [] (uniqueItems items) = Inr out"
    by (simp add: processAndDeduplicateNews_def)
  from nearDedup_extends [OF this] show ?thesis by simp
qed

lemma process_subseq:
  assumes "processAndDeduplicateNews lower sim items = Inr out"
  shows "subseq out items"
proof -
  have "subseq (uniqueItems items) items"
    by (simp add: uniqueItems_firstSeen firstSeen_subseq)
  with process_unique [OF assms] show ?thesis by (rule subseq_order.order_trans)
qed

lemma distinct_subseq:
  assumes "subseq ys xs" and "distinct xs"
  shows "distinct ys"
  using assms by (induction rule: list_emb.induct) (auto dest: list_emb_set)

lemma process_distinct_hashes:
  assumes "processAndDeduplicateNews lower sim items = Inr out"
  shows "distinct (map sourceHash out)"
proof -
  from process_unique [OF assms]
  have "subseq (map sourceHash out) (map sourceHash (uniqueItems items))"
    by (rule subseq_map)
  moreover have "distinct (map sourceHash (uniqueItems items))"
    by (simp add: uniqueItems_firstSeen firstSeen_distinct)
  ultimately show ?thesis by (rule distinct_subseq)
qed

lemma process_first:
  assumes "processAndDeduplicateNews lower sim items = Inr out"
  shows "take 1 out = take 1 (uniqueItems items)"
  using assms unfolding processAndDeduplicateNews_def by (rule nearDedup_first)

lemma process_keeps_all:
  assumes "\<forall>i\<in>set items. title i \<noteq> None"
    and "\<forall>x\<in>set (uniqueItems items). \<forall>y\<in>set (uniqueItems items). x \<noteq> y \<longrightarrow>
           \<not> (\<exists>t te. title x = Some t \<and> title y = Some te \<and> sim (lower t) (lower te) > threshold)"
  shows "processAndDeduplicateNews lower sim items = Inr (uniqueItems items)"
proof -
  have "nearDedup lower sim [] (uniqueItems items) = Inr ([] @ uniqueItems items)"
  proof (rule nearDedup_keeps_all)
    show "\<forall>i\<in>set ([] @ uniqueItems items). title i \<noteq> None"
      using uniqueItems_titled [OF assms(1)] by simp
    show "distinct ([] @ uniqueItems items)" by (simp add: uniqueItems_distinct)
    show "\<forall>x\<in>set ([] @ uniqueItems items). \<forall>y\<in>set ([] @ uniqueItems items).
            x \<noteq> y \<longrightarrow> \<not> tooSimilar lower sim x y"
      using assms(2) by (simp add: tooSimilar_iff)
  qed
  then show ?thesis by (simp add: processAndDeduplicateNews_def)
qed

lemma process_decision:
  assumes titled: "\<forall>i\<in>set items. title i \<noteq> None"
    and run: "processAndDeduplicateNews lower sim items = Inr out"
    and split: "uniqueItems items = pre @ x # post"
  shows "x \<notin> set out \<longleftrightarrow>
           (\<exists>e\<in>set pre. e \<in> set out \<and>
              (\<exists>t te. title x = Some t \<and> title e = Some te \<and> sim (lower t) (lower te) > threshold))"
proof -
  from run split have run': "nearDedup lower sim [] (pre @ x # post) = Inr out"
    by (simp add: processAndDeduplicateNews_def)
  have dist: "distinct (pre @ x # post)"
    using uniqueItems_distinct [of items] split by simp
  from nearDedup_decision [OF run' dist] obtain acc dup
    where acc: "nearDedup lower sim [] pre = Inr acc" and accepted: "set acc = set pre \<inter> set out"
      and dup: "isDuplicate lower sim x acc = Inr dup" and mem: "x \<in> set out \<longleftrightarrow> \<not> dup"
    by blast
  have all: "\<forall>i\<in>set (pre @ x # post). title i \<noteq> None"
    using uniqueItems_titled [OF titled] split by simp
  with accepted have "\<forall>e\<in>set acc. title e \<noteq> None" by auto
  moreover from all have "title x \<noteq> None" by simp
  ultimately have "isDuplicate lower sim x acc = Inr (\<exists>e\<in>set acc. tooSimilar lower sim x e)"
    by (intro isDuplicate_titles)
  with dup have "dup \<longleftrightarrow> (\<exists>e\<in>set acc. tooSimilar lower sim x e)" by simp
  with mem accepted show ?thesis by (auto simp: tooSimilar_iff)
qed

text \<open>
  Claim C1. On a batch whose items all have a title, the Dedup Engine returns a list
  \<open>out\<close> drawn, in order, from the items that survived the exact-key phase, and for
  every such candidate \<open>x\<close>: \<open>x\<close> is rejected if and only if, among the candidates
  that arrived before \<open>x\<close> and were accepted (they are in \<open>out\<close>), at least one has a
  title against which the title of \<open>x\<close>, both lower-cased, scores strictly above the
  threshold. The threshold is the double that the literal 0.8 denotes. Consequently, of
  two items whose titles score above the threshold, the one that arrives first is the only
  survivor: the batch \<open>[a, b]\<close> gives \<open>[a]\<close>, and the reversed batch gives \<open>[b]\<close>.
\<close>

theorem near_duplicate_first_accepted_wins:
  "((\<forall>i\<in>set newsItems. title i \<noteq> None) \<longrightarrow>
      (\<exists>out. processAndDeduplicateNews lower sim newsItems = Inr out \<and>
         subseq out (uniqueItems newsItems) \<and>
         (\<forall>pre x post. uniqueItems newsItems = pre @ x # post \<longrightarrow>
            (x \<notin> set out \<longleftrightarrow>
               (\<exists>e\<in>set pre. e \<in> set out \<and>
                  (\<exists>t te. title x = Some t \<and> title e = Some te \<and>
                     sim (lower t) (lower te) > threshold))))))
   \<and> threshold = 3602879701896397 / 4503599627370496
   \<and> (title a = Some ta \<and> title b = Some tb
        \<and> sim (lower tb) (lower ta) > threshold \<and> sim (lower ta) (lower tb) > threshold \<longrightarrow>
        processAndDeduplicateNews lower sim [a, b] = Inr [a]
        \<and> processAndDeduplicateNews lower sim [b, a] = Inr [b])"
proof (intro conjI impI)
  assume titled: "\<forall>i\<in>set newsItems. title i \<noteq> None"
  from process_total [OF titled] obtain out
    where out: "processAndDeduplicateNews lower sim newsItems = Inr out" by blast
  have "\<forall>pre x post. uniqueItems newsItems = pre @ x # post \<longrightarrow>
            (x \<notin> set out \<longleftrightarrow>
               (\<exists>e\<in>set pre. e \<in> set out \<and>
                  (\<exists>t te. title x = Some t \<and> title e = Some te \<and>
                     sim (lower t) (lower te) > threshold)))"
    using process_decision [OF titled out] by blast
  with out process_unique [OF out]
  show "\<exists>out. processAndDeduplicateNews lower sim newsItems = Inr out \<and>
         subseq out (uniqueItems newsItems) \<and>
         (\<forall>pre x post. uniqueItems newsItems = pre @ x # post \<longrightarrow>
            (x \<notin> set out \<longleftrightarrow>
               (\<exists>e\<in>set pre. e \<in> set out \<and>
                  (\<exists>t te. title x = Some t \<and> title e = Some te \<and>
                     sim (lower t) (lower te) > threshold))))"
    by blast
next
  show "threshold = 3602879701896397 / 4503599627370496" by (rule threshold_def)
next
  assume h: "title a = Some ta \<and> title b = Some tb
        \<and> sim (lower tb) (lower ta) > threshold \<and> sim (lower ta) (lower tb) > threshold"
  then show "processAndDeduplicateNews lower sim [a, b] = Inr [a]"
    by (intro process_pair [where ta = ta and tb = tb]) simp_all
  from h show "processAndDeduplicateNews lower sim [b, a] = Inr [b]"
    by (intro process_pair [where ta = tb and tb = ta]) simp_all
qed

lemma three_titles_unique:
  "uniqueItems [senateT1, senateT2, otherStory] = [senateT1, senateT2, otherStory]"
  by (simp add: uniqueItems_def has_def mapSet_def senateT1_def senateT2_def otherStory_def)

lemma three_titles_result:
  "processAndDeduplicateNews toLowerCase compareTwoStrings [senateT1, senateT2, otherStory]
     = Inr [senateT1, otherStory]"
proof -
  have "titleSimilarity toLowerCase compareTwoStrings otherStory senateT1 = Some (6 / 53)"
    by (simp add: titleSimilarity_def otherStory_def senateT1_def score_other_T1)
  moreover have "titleSimilarity toLowerCase compareTwoStrings senateT2 senateT1 = Some (48 / 53)"
    by (simp add: titleSimilarity_def senateT2_def senateT1_def score_T2_T1)
  ultimately show ?thesis
    by (simp add: processAndDeduplicateNews_def three_titles_unique threshold_def)
qed

theorem near_duplicate_first_accepted_wins_witness:
  "title senateT1 \<noteq> None \<and> title senateT2 \<noteq> None \<and> title otherStory \<noteq> None
   \<and> compareTwoStrings (toLowerCase ''Senate passes new budget bill today'')
        (toLowerCase ''Senate Passes New Budget Bill'') = 48 / 53
   \<and> compareTwoStrings (toLowerCase ''Completely Different Story About Y'')
        (toLowerCase ''Senate Passes New Budget Bill'') = 6 / 53
   \<and> processAndDeduplicateNews toLowerCase compareTwoStrings [senateT1, senateT2, otherStory]
       = Inr [senateT1, otherStory]
   \<and> senateT2 \<notin> set [senateT1, otherStory]
   \<and> processAndDeduplicateNews toLowerCase compareTwoStrings [senateT1, senateT2] = Inr [senateT1]
   \<and> processAndDeduplicateNews toLowerCase compareTwoStrings [senateT2, senateT1] = Inr [senateT2]"
proof -
  have titles: "title senateT1 = Some ''Senate Passes New Budget Bill''"
    "title senateT2 = Some ''Senate passes new budget bill today''"
    "title otherStory = Some ''Completely Different Story About Y''"
    by (simp_all add: senateT1_def senateT2_def otherStory_def)
  have scores:
    "compareTwoStrings (toLowerCase ''Senate passes new budget bill today'')
       (toLowerCase ''Senate Passes New Budget Bill'') > threshold"
    "compareTwoStrings (toLowerCase ''Senate Passes New Budget Bill'')
       (toLowerCase ''Senate passes new budget bill today'') > threshold"
    by (simp_all only: score_T1_T2 score_T2_T1 above_threshold)
  note c1 = near_duplicate_first_accepted_wins
    [where a = senateT1 and b = senateT2 and lower = toLowerCase and sim = compareTwoStrings
       and ta = "''Senate Passes New Budget Bill''"
       and tb = "''Senate passes new budget bill today''"
       and newsItems = "[senateT1, senateT2, otherStory]"]
  from c1 have pair:
    "processAndDeduplicateNews toLowerCase compareTwoStrings [senateT1, senateT2] = Inr [senateT1]
      \<and> processAndDeduplicateNews toLowerCase compareTwoStrings [senateT2, senateT1] = Inr [senateT2]"
    using titles scores by blast
  from c1 have "(\<forall>i\<in>set [senateT1, senateT2, otherStory]. title i \<noteq> None) \<longrightarrow>
      (\<exists>out. processAndDeduplicateNews toLowerCase compareTwoStrings [senateT1, senateT2, otherStory]
              = Inr out \<and>
         (\<forall>pre x post. uniqueItems [senateT1, senateT2, otherStory] = pre @ x # post \<longrightarrow>
            (x \<notin> set out \<longleftrightarrow>
               (\<exists>e\<in>set pre. e \<in> set out \<and>
                  (\<exists>t te. title x = Some t \<and> title e = Some te \<and>
                     compareTwoStrings (toLowerCase t) (toLowerCase te) > threshold)))))"
    by blast
  with titles three_titles_result
  have decided: "\<forall>pre x post. uniqueItems [senateT1, senateT2, otherStory] = pre @ x # post \<longrightarrow>
            (x \<notin> set [senateT1, otherStory] \<longleftrightarrow>
               (\<exists>e\<in>set pre. e \<in> set [senateT1, otherStory] \<and>
                  (\<exists>t te. title x = Some t \<and> title e = Some te \<and>
                     compareTwoStrings (toLowerCase t) (toLowerCase te) > threshold)))"
    by simp
  have "uniqueItems [senateT1, senateT2, otherStory] = [senateT1] @ senateT2 # [otherStory]"
    by (simp add: three_titles_unique)
  with decided have "senateT2 \<notin> set [senateT1, otherStory] \<longleftrightarrow>
      (\<exists>e\<in>set [senateT1]. e \<in> set [senateT1, otherStory] \<and>
          (\<exists>t te. title senateT2 = Some t \<and> title e = Some te \<and>
             compareTwoStrings (toLowerCase t) (toLowerCase te) > threshold))"
    by blast
  with titles scores have rejected: "senateT2 \<notin> set [senateT1, otherStory]" by simp
  from titles pair rejected three_titles_result score_T2_T1 score_other_T1 show ?thesis by simp
qed

text \<open>
  Claim C2. The items that enter the near-duplicate phase, \<open>uniqueItems\<close>, carry
  pairwise different sourceHashes, are a subsequence of the batch, represent every
  sourceHash of the batch, and each of them is the earliest item of the batch with its
  sourceHash. Whatever list the Dedup Engine returns is drawn from these items: it is a
  subsequence of \<open>uniqueItems\<close>, hence of the batch in arrival order, its sourceHashes
  are pairwise different, and it begins with the first of them. When every item has a
  title the engine does return a list, and when moreover no two of these items have
  titles that score above the threshold, it returns exactly \<open>uniqueItems\<close>.
\<close>

theorem exact_duplicates_keep_first:
  "distinct (map sourceHash (uniqueItems newsItems))
   \<and> subseq (uniqueItems newsItems) newsItems
   \<and> (\<forall>x\<in>set newsItems. \<exists>y\<in>set (uniqueItems newsItems). sourceHash y = sourceHash x)
   \<and> (\<forall>y\<in>set (uniqueItems newsItems).
         find (\<lambda>x. sourceHash x = sourceHash y) newsItems = Some y)
   \<and> (\<forall>out. processAndDeduplicateNews lower sim newsItems = Inr out \<longrightarrow>
         subseq out newsItems \<and> subseq out (uniqueItems newsItems)
         \<and> distinct (map sourceHash out) \<and> take 1 out = take 1 (uniqueItems newsItems))
   \<and> ((\<forall>i\<in>set newsItems. title i \<noteq> None) \<longrightarrow>
        (\<exists>out. processAndDeduplicateNews lower sim newsItems = Inr out))
   \<and> ((\<forall>i\<in>set newsItems. title i \<noteq> None)
        \<and> (\<forall>x\<in>set (uniqueItems newsItems). \<forall>y\<in>set (uniqueItems newsItems). x \<noteq> y \<longrightarrow>
             \<not> (\<exists>t te. title x = Some t \<and> title y = Some te \<and> sim (lower t) (lower te) > threshold))
        \<longrightarrow> processAndDeduplicateNews lower sim newsItems = Inr (uniqueItems newsItems))"
proof (intro conjI)
  show "distinct (map sourceHash (uniqueItems newsItems))"
    by (simp add: uniqueItems_firstSeen firstSeen_distinct)
  show "subseq (uniqueItems newsItems) newsItems"
    by (simp add: uniqueItems_firstSeen firstSeen_subseq)
  show "\<forall>x\<in>set newsItems. \<exists>y\<in>set (uniqueItems newsItems). sourceHash y = sourceHash x"
    using firstSeen_covers [of _ newsItems "[]"] by (simp add: uniqueItems_firstSeen)
  show "\<forall>y\<in>set (uniqueItems newsItems).
         find (\<lambda>x. sourceHash x = sourceHash y) newsItems = Some y"
    using firstSeen_find [of _ "[]" newsItems] by (simp add: uniqueItems_firstSeen)
  show "\<forall>out. processAndDeduplicateNews lower sim newsItems = Inr out \<longrightarrow>
         subseq out newsItems \<and> subseq out (uniqueItems newsItems)
         \<and> distinct (map sourceHash out) \<and> take 1 out = take 1 (uniqueItems newsItems)"
    using process_subseq process_unique process_distinct_hashes process_first by blast
  show "(\<forall>i\<in>set newsItems. title i \<noteq> None) \<longrightarrow>
        (\<exists>out. processAndDeduplicateNews lower sim newsItems = Inr out)"
    using process_total by blast
  show "(\<forall>i\<in>set newsItems. title i \<noteq> None)
        \<and> (\<forall>x\<in>set (uniqueItems newsItems). \<forall>y\<in>set (uniqueItems newsItems). x \<noteq> y \<longrightarrow>
             \<not> (\<exists>t te. title x = Some t \<and> title y = Some te \<and> sim (lower t) (lower te) > threshold))
        \<longrightarrow> processAndDeduplicateNews lower sim newsItems = Inr (uniqueItems newsItems)"
    using process_keeps_all [of newsItems sim lower] by blast
qed

lemma refetched_batch_unique:
  "uniqueItems [senateT1, senateT1Refetched, otherStory] = [senateT1, otherStory]"
  by (simp add: uniqueItems_def has_def mapSet_def senateT1_def senateT1Refetched_def otherStory_def)

lemma refetched_batch_result:
  "processAndDeduplicateNews toLowerCase compareTwoStrings [senateT1, senateT1Refetched, otherStory]
     = Inr [senateT1, otherStory]"
proof -
  have "titleSimilarity toLowerCase compareTwoStrings otherStory senateT1 = Some (6 / 53)"
    by (simp add: titleSimilarity_def otherStory_def senateT1_def score_other_T1)
  then show ?thesis
    by (simp add: processAndDeduplicateNews_def refetched_batch_unique threshold_def)
qed

theorem exact_duplicates_keep_first_witness:
  "sourceHash senateT1Refetched = sourceHash senateT1
   \<and> senateT1Refetched \<noteq> senateT1
   \<and> uniqueItems [senateT1, senateT1Refetched, otherStory] = [senateT1, otherStory]
   \<and> find (\<lambda>x. sourceHash x = sourceHash senateT1) [senateT1, senateT1Refetched, otherStory]
       = Some senateT1
   \<and> processAndDeduplicateNews toLowerCase compareTwoStrings [senateT1, senateT1Refetched, otherStory]
       = Inr [senateT1, otherStory]
   \<and> processAndDeduplicateNews toLowerCase (\<lambda>first second. 0) [senateT1, senateT1Refetched, otherStory]
       = Inr [senateT1, otherStory]
   \<and> subseq [senateT1, otherStory] [senateT1, senateT1Refetched, otherStory]"
proof -
  let ?batch = "[senateT1, senateT1Refetched, otherStory]"
  note c2 = exact_duplicates_keep_first
    [where newsItems = ?batch and lower = toLowerCase and sim = compareTwoStrings]
  from c2 have "\<forall>y\<in>set (uniqueItems ?batch). find (\<lambda>x. sourceHash x = sourceHash y) ?batch = Some y"
    by blast
  then have first: "find (\<lambda>x. sourceHash x = sourceHash senateT1) ?batch = Some senateT1"
    by (simp add: refetched_batch_unique)
  from c2 have "\<forall>out. processAndDeduplicateNews toLowerCase compareTwoStrings ?batch = Inr out
      \<longrightarrow> subseq out ?batch"
    by blast
  with refetched_batch_result have sub: "subseq [senateT1, otherStory] ?batch" by blast
  have same: "sourceHash senateT1Refetched = sourceHash senateT1" "senateT1Refetched \<noteq> senateT1"
    by (simp_all add: senateT1Refetched_def senateT1_def)
  have titled: "\<forall>i\<in>set ?batch. title i \<noteq> None"
    by (simp add: senateT1Refetched_def senateT1_def otherStory_def)
  have apart: "\<forall>x\<in>set (uniqueItems ?batch). \<forall>y\<in>set (uniqueItems ?batch). x \<noteq> y \<longrightarrow>
      \<not> (\<exists>t te. title x = Some t \<and> title y = Some te
            \<and> (\<lambda>first second. 0) (toLowerCase t) (toLowerCase te) > threshold)"
    by (simp add: threshold_def)
  from exact_duplicates_keep_first
    [where newsItems = ?batch and lower = toLowerCase and sim = "\<lambda>first second. 0"]
  have "(\<forall>i\<in>set ?batch. title i \<noteq> None)
        \<and> (\<forall>x\<in>set (uniqueItems ?batch). \<forall>y\<in>set (uniqueItems ?batch). x \<noteq> y \<longrightarrow>
             \<not> (\<exists>t te. title x = Some t \<and> title y = Some te
                   \<and> (\<lambda>first second. 0) (toLowerCase t) (toLowerCase te) > threshold))
        \<longrightarrow> processAndDeduplicateNews toLowerCase (\<lambda>first second. 0) ?batch
              = Inr (uniqueItems ?batch)"
    by blast
  with titled apart
  have "processAndDeduplicateNews toLowerCase (\<lambda>first second. 0) ?batch = Inr (uniqueItems ?batch)"
    by blast
  then have zero: "processAndDeduplicateNews toLowerCase (\<lambda>first second. 0) ?batch
      = Inr [senateT1, otherStory]"
    by (simp only: refetched_batch_unique)
  from same first sub zero refetched_batch_unique refetched_batch_result show ?thesis by blast
qed

section \<open>Claims about the source adapters\<close>

lemma isValidNewsItem_iff:
  "isValidNewsItem item \<longleftrightarrow>
     (\<exists>t. title item = Some t \<and> length t > 10) \<and> length (summary item) > 20
     \<and> source item \<noteq> [] \<and> (\<exists>u. url item = Some u \<and> u \<noteq> [])"
  by (cases "title item"; cases "url item")
     (auto simp: isValidNewsItem_def truthy_def truthyOpt_def truthyDate_def)






lemma admit_valid:
  "\<forall>x\<in>set acc. isValidNewsItem x \<Longrightarrow> \<forall>x\<in>set (admit acc c). isValidNewsItem x"
  by (simp add: admit_def)

lemma admitEntries_valid:
  "\<forall>x\<in>set acc. isValidNewsItem x
     \<Longrightarrow> \<forall>x\<in>set (admitEntries generateHash sourceName label acc entries). isValidNewsItem x"
proof (induction entries arbitrary: acc)
  case Nil
  then show ?case by simp
next
  case (Cons entry entries)
  show ?case
  proof (cases "rssNewsItem generateHash sourceName label entry")
    case (Inl e)
    with Cons.prems show ?thesis by simp
  next
    case (Inr c)
    from admit_valid [OF Cons.prems] have "\<forall>x\<in>set (admit acc c). isValidNewsItem x" .
    from Cons.IH [OF this] Inr show ?thesis by simp
  qed
qed

lemma admitArticles_valid:
  "\<forall>x\<in>set acc. isValidNewsItem x
     \<Longrightarrow> \<forall>x\<in>set (admitArticles generateHash sourceName label acc articles). isValidNewsItem x"
proof (induction articles arbitrary: acc)
  case Nil
  then show ?case by simp
next
  case (Cons article articles)
  show ?case
  proof (cases "guardianNewsItem generateHash sourceName label article")
    case (Inl e)
    with Cons.prems show ?thesis by simp
  next
    case (Inr c)
    from admit_valid [OF Cons.prems] have "\<forall>x\<in>set (admit acc c). isValidNewsItem x" .
    from Cons.IH [OF this] Inr show ?thesis by simp
  qed
qed


lemma foldl_feeds_valid:
  assumes "\<forall>x\<in>set acc. isValidNewsItem x"
  shows "\<forall>x\<in>set (foldl (\<lambda>newsItems (label, feed).
              case feed of
                None \<Rightarrow> newsItems
              | Some items \<Rightarrow>
                  admitEntries generateHash sourceName label newsItems (take 10 items))
            acc feeds). isValidNewsItem x"
  using assms
proof (induction feeds arbitrary: acc)
  case Nil
  then show ?case by simp
next
  case (Cons f feeds)
  obtain label feed where f: "f = (label, feed)" by (cases f)
  have "\<forall>x\<in>set (case feed of
                None \<Rightarrow> acc
              | Some items \<Rightarrow>
                  admitEntries generateHash sourceName label acc (take 10 items)). isValidNewsItem x"
    using Cons.prems admitEntries_valid [OF Cons.prems] by (cases feed) simp_all
  from Cons.IH [OF this] show ?case by (simp add: f)
qed

lemma foldl_sections_valid:
  assumes "\<forall>x\<in>set acc. isValidNewsItem x"
  shows "\<forall>x\<in>set (foldl (\<lambda>newsItems label.
              case respond label of
                None \<Rightarrow> newsItems
              | Some articles \<Rightarrow>
                  admitArticles generateHash sourceName label newsItems articles)
            acc labels). isValidNewsItem x"
  using assms
proof (induction labels arbitrary: acc)
  case Nil
  then show ?case by simp
next
  case (Cons l labels)
  have "\<forall>x\<in>set (case respond l of
                None \<Rightarrow> acc
              | Some articles \<Rightarrow>
                  admitArticles generateHash sourceName l acc articles). isValidNewsItem x"
    using Cons.prems admitArticles_valid [OF Cons.prems] by (cases "respond l") simp_all
  from Cons.IH [OF this] show ?case by simp
qed

lemma fetchRSSNews_valid: "\<forall>x\<in>set (fetchRSSNews generateHash sourceName feeds). isValidNewsItem x"
  unfolding fetchRSSNews_def by (rule foldl_feeds_valid) simp

lemma fetchGuardianNews_valid:
  "\<forall>x\<in>set (fetchGuardianNews generateHash sourceName apiKey respond). isValidNewsItem x"
proof (cases "truthyOpt apiKey")
  case True
  then show ?thesis
    unfolding fetchGuardianNews_def using foldl_sections_valid [of "[]"] by simp
next
  case False
  then show ?thesis by (simp add: fetchGuardianNews_def)
qed

lemma allNews_valid:
  "\<forall>x\<in>set (allNews generateHash bbcFeeds reutersFeeds apiKey respond). isValidNewsItem x"
  using fetchRSSNews_valid fetchGuardianNews_valid by (auto simp: allNews_def)











text \<open>
  Claim C4, as stated, fails: \<open>world\<close>, a topic label of the configured BBC feeds, is
  not a key of the lookup table, and it is mapped to itself, not to \<open>general\<close>.
\<close>

theorem unmapped_label_not_general:
  "map_of categoryMap ''world'' = None \<and> mapCategory ''world'' = Str ''world''
   \<and> mapCategory ''world'' \<noteq> Str ''general''"
  by (simp add: mapCategory_def categoryMap_def objectPrototypeMembers_def)

text \<open>
  Claim C4, amended. A label that is not a key of the lookup table and not the name of a
  member inherited from \<open>Object.prototype\<close> is mapped to itself, the literal label; the
  only label mapped to \<open>general\<close> is \<open>general\<close>.
\<close>

theorem mapCategory_falls_back_to_label:
  "(map_of categoryMap label = None \<and> label \<notin> set objectPrototypeMembers
      \<longrightarrow> mapCategory label = Str label)
   \<and> (mapCategory label = Str ''general'' \<longrightarrow> label = ''general'')"
  by (auto simp: mapCategory_def categoryMap_def split: option.splits if_splits)

theorem mapCategory_falls_back_to_label_witness:
  "map_of categoryMap ''world'' = None \<and> ''world'' \<notin> set objectPrototypeMembers
   \<and> mapCategory ''world'' = Str ''world''
   \<and> mapCategory ''general'' = Str ''general''"
proof -
  have h: "map_of categoryMap ''world'' = None \<and> ''world'' \<notin> set objectPrototypeMembers"
    by (simp add: categoryMap_def objectPrototypeMembers_def)
  with mapCategory_falls_back_to_label [of "''world''"]
  have "mapCategory ''world'' = Str ''world''" by blast
  moreover have "mapCategory ''general'' = Str ''general''"
    by (simp add: mapCategory_def categoryMap_def objectPrototypeMembers_def)
  ultimately show ?thesis using h by simp
qed

section \<open>Claims about the Store Gateway\<close>

lemma validated_fields:
  assumes "validated i c = Inr n"
  shows "url c = Some (docUrl n)" and "docSourceHash n = sourceHash c" and "docId n = i"
    and "isActive n" and "length (docSummary n) \<le> 2000" and "length (docTitle n) \<le> 500"
  using assms
  by (auto simp: validated_def split: option.splits jsvalue.splits if_splits)

lemma findOne_None: "findOne coll c = None \<longleftrightarrow> (\<forall>d\<in>set coll. \<not> matches c d)"
  by (auto simp: findOne_def find_None_iff)

lemma save_unmatched:
  assumes "findOne coll c = None"
  shows "save coll c =
           (case validated (freshId coll) c of Inl e \<Rightarrow> Inl e | Inr n \<Rightarrow> Inr (n, coll @ [n]))"
proof (cases "validated (freshId coll) c")
  case (Inl e)
  then show ?thesis by (simp add: save_def)
next
  case (Inr n)
  from validated_fields(1) [OF Inr] assms have "docUrl n \<notin> set (map docUrl coll)"
    by (auto simp: findOne_None matches_def)
  with Inr show ?thesis by (simp add: save_def)
qed

lemma cacheNews_returns: "\<exists>client. cacheNews c n = Inr client"
  by (auto simp: cacheNews_def split: option.splits sum.splits)

text \<open>What one turn of the loop does to the collection and to \<open>savedNews\<close>.\<close>

lemma saveOne_cases:
  assumes "saveOne (b, savedNews) c = (b', savedNews')"
  shows "if (\<forall>d\<in>set (collection b). \<not> matches c d)
            \<and> (\<exists>n. validated (freshId (collection b)) c = Inr n)
         then \<exists>n. validated (freshId (collection b)) c = Inr n
                \<and> collection b' = collection b @ [n] \<and> savedNews' = savedNews @ [n]
         else collection b' = collection b \<and> savedNews' = savedNews"
proof (cases "findOne (collection b) c")
  case (Some existing)
  then have "\<not> (\<forall>d\<in>set (collection b). \<not> matches c d)"
    using findOne_None [of "collection b" c] by simp
  moreover from Some assms have "b' = b" "savedNews' = savedNews" by (simp_all add: saveOne_def)
  ultimately show ?thesis by simp
next
  case None
  then have unmatched: "\<forall>d\<in>set (collection b). \<not> matches c d" by (simp add: findOne_None)
  show ?thesis
  proof (cases "validated (freshId (collection b)) c")
    case (Inl e)
    with None assms have "b' = b" "savedNews' = savedNews"
      by (simp_all add: saveOne_def save_unmatched)
    with Inl show ?thesis by simp
  next
    case (Inr n)
    obtain client where "cacheNews (redisClient b) n = Inr client"
      using cacheNews_returns by blast
    with None Inr assms have "collection b' = collection b @ [n]" "savedNews' = savedNews @ [n]"
      by (auto simp: saveOne_def save_unmatched)
    with Inr unmatched show ?thesis by simp
  qed
qed

lemma saveOne_appends:
  assumes "saveOne (b, savedNews) c = (b', savedNews')"
  shows "\<exists>new. collection b' = collection b @ new \<and> savedNews' = savedNews @ new"
  using saveOne_cases [OF assms] by (auto split: if_splits)

lemma foldl_saveOne_appends:
  assumes "foldl saveOne (b, savedNews) cs = (b', savedNews')"
  shows "\<exists>new. collection b' = collection b @ new \<and> savedNews' = savedNews @ new"
  using assms
proof (induction cs arbitrary: b savedNews)
  case Nil
  then show ?case by simp
next
  case (Cons c cs)
  obtain b1 s1 where one: "saveOne (b, savedNews) c = (b1, s1)" by (cases "saveOne (b, savedNews) c")
  with Cons.prems have "foldl saveOne (b1, s1) cs = (b', savedNews')" by simp
  from Cons.IH [OF this] obtain new2
    where "collection b' = collection b1 @ new2" "savedNews' = s1 @ new2" by blast
  moreover from saveOne_appends [OF one] obtain new1
    where "collection b1 = collection b @ new1" "s1 = savedNews @ new1" by blast
  ultimately show ?case by simp
qed

lemma broadcastNews_returns: "\<exists>sock. broadcastNews io_opt newsItems = Inr sock"
  by (auto simp: broadcastNews_def split: option.splits sum.splits)

lemma saveNews_returns:
  "\<exists>b' savedNews. saveNews b cs = Inr (b', savedNews) \<and> collection b' = collection b @ savedNews"
proof -
  obtain b1 s1 where run: "foldl saveOne (b, []) cs = (b1, s1)"
    by (cases "foldl saveOne (b, []) cs")
  from foldl_saveOne_appends [OF run] have coll: "collection b1 = collection b @ s1" by simp
  obtain sock where "broadcastNews (ioServer b1) s1 = Inr sock"
    using broadcastNews_returns by blast
  with run coll show ?thesis by (simp add: saveNews_def)
qed

text \<open>No two stored documents share a url, and none share a sourceHash.\<close>

lemma saveOne_unique:
  assumes "saveOne (b, savedNews) c = (b', savedNews')"
    and "distinct (map docUrl (collection b))" and "distinct (map docSourceHash (collection b))"
  shows "distinct (map docUrl (collection b')) \<and> distinct (map docSourceHash (collection b'))"
proof (cases "(\<forall>d\<in>set (collection b). \<not> matches c d)
            \<and> (\<exists>n. validated (freshId (collection b)) c = Inr n)")
  case True
  with saveOne_cases [OF assms(1)] obtain n
    where n: "validated (freshId (collection b)) c = Inr n"
      and coll: "collection b' = collection b @ [n]" by auto
  from True validated_fields(1,2) [OF n]
  have "docUrl n \<notin> set (map docUrl (collection b))"
    and "docSourceHash n \<notin> set (map docSourceHash (collection b))"
    by (auto simp: matches_def)
  with coll assms(2,3) show ?thesis by simp
next
  case False
  with saveOne_cases [OF assms(1)] have "collection b' = collection b" by (auto split: if_splits)
  with assms(2,3) show ?thesis by simp
qed

lemma foldl_saveOne_unique:
  assumes "foldl saveOne (b, savedNews) cs = (b', savedNews')"
    and "distinct (map docUrl (collection b))" and "distinct (map docSourceHash (collection b))"
  shows "distinct (map docUrl (collection b')) \<and> distinct (map docSourceHash (collection b'))"
  using assms
proof (induction cs arbitrary: b savedNews)
  case Nil
  then show ?case by simp
next
  case (Cons c cs)
  obtain b1 s1 where one: "saveOne (b, savedNews) c = (b1, s1)" by (cases "saveOne (b, savedNews) c")
  from saveOne_unique [OF one Cons.prems(2,3)]
  have "distinct (map docUrl (collection b1))" "distinct (map docSourceHash (collection b1))"
    by simp_all
  moreover from one Cons.prems(1) have "foldl saveOne (b1, s1) cs = (b', savedNews')" by simp
  ultimately show ?case by (intro Cons.IH)
qed

lemma saveNews_collection:
  assumes "saveNews b cs = Inr (b', savedNews)"
  shows "collection b' = collection (fst (foldl saveOne (b, []) cs))"
  using assms
  by (auto simp: saveNews_def split: prod.splits if_splits sum.splits)

lemma saveNews_unique:
  assumes "saveNews b cs = Inr (b', savedNews)"
    and "distinct (map docUrl (collection b))" and "distinct (map docSourceHash (collection b))"
  shows "distinct (map docUrl (collection b')) \<and> distinct (map docSourceHash (collection b'))"
proof -
  obtain b1 s1 where run: "foldl saveOne (b, []) cs = (b1, s1)"
    by (cases "foldl saveOne (b, []) cs")
  from saveNews_collection [OF assms(1)] run have "collection b' = collection b1" by simp
  with foldl_saveOne_unique [OF run assms(2,3)] show ?thesis by simp
qed

lemma same_url_twice:
  assumes unmatched: "\<forall>d\<in>set (collection b). \<not> matches c1 d"
    and valid: "validated (freshId (collection b)) c1 = Inr n"
    and same: "url c2 = url c1"
  shows "\<exists>b'. saveNews b [c1, c2] = Inr (b', [n]) \<and> collection b' = collection b @ [n]"
proof -
  obtain b1 s1 where one: "saveOne (b, []) c1 = (b1, s1)" by (cases "saveOne (b, []) c1")
  from saveOne_cases [OF one] unmatched valid
  have b1: "collection b1 = collection b @ [n]" and s1: "s1 = [n]" by auto
  from validated_fields(1) [OF valid] same have "matches c2 n" by (simp add: matches_def)
  with b1 have "findOne (collection b1) c2 \<noteq> None" by (auto simp: findOne_None)
  then have two: "saveOne (b1, s1) c2 = (b1, s1)" by (auto simp: saveOne_def)
  obtain sock where "broadcastNews (ioServer b1) [n] = Inr sock"
    using broadcastNews_returns by blast
  with one two b1 s1 show ?thesis by (simp add: saveNews_def)
qed

lemma trim_replicate_a: "trim (replicate k CHR ''a'') = replicate k CHR ''a''"
  by (simp add: trim_def isWhitespace_def dropWhile_replicate)

lemma longSummaryItem_rejected: "validated i longSummaryItem = Inl ValidationError"
  by (simp add: validated_def longSummaryItem_def senateT1_def trim_replicate_a)

text \<open>
  Claim C5, as stated, fails in one direction: a candidate that no stored article matches
  is not always persisted. With an empty collection, the candidate below passes the gate
  and matches nothing, but its summary has 2001 characters, the schema allows 2000, the
  insert is refused, the error is caught, and nothing is stored or reported.
\<close>

theorem unmatched_candidate_not_persisted:
  "isValidNewsItem longSummaryItem
   \<and> findOne (collection emptyBackend) longSummaryItem = None
   \<and> saveNews emptyBackend [longSummaryItem] = Inr (emptyBackend, [])"
proof -
  have "isValidNewsItem longSummaryItem"
    by (simp add: isValidNewsItem_iff longSummaryItem_def senateT1_def)
  moreover have "findOne (collection emptyBackend) longSummaryItem = None"
    by (simp add: findOne_def emptyBackend_def)
  moreover have "saveNews emptyBackend [longSummaryItem] = Inr (emptyBackend, [])"
    by (simp add: saveNews_def saveOne_def findOne_def save_def emptyBackend_def
        longSummaryItem_rejected)
  ultimately show ?thesis by simp
qed

text \<open>
  Claim C5, amended. For each candidate the gateway attempts the insert exactly when no
  stored article matches it on url or sourceHash, and the candidate is persisted exactly
  when, in addition, the document passes the validation of the schema; otherwise the
  collection and the report are unchanged (first conjunct, for one turn of the loop).
  saveNews always returns, and the collection afterwards is the collection before followed
  by exactly the documents it returns. Stored urls and stored sourceHashes stay pairwise
  different. When the first of two candidates with the same url is inserted, the second is
  not, whatever its sourceHash: exactly one article is stored and reported.
\<close>

theorem store_gateway_inserts_unmatched_valid_candidates:
  "(\<forall>b' savedNews'. saveOne (b, savedNews) c = (b', savedNews') \<longrightarrow>
      (if (\<forall>d\<in>set (collection b). \<not> matches c d)
          \<and> (\<exists>n. validated (freshId (collection b)) c = Inr n)
       then \<exists>n. validated (freshId (collection b)) c = Inr n
              \<and> collection b' = collection b @ [n] \<and> savedNews' = savedNews @ [n]
       else collection b' = collection b \<and> savedNews' = savedNews))
   \<and> (\<exists>b' reported. saveNews b cs = Inr (b', reported) \<and> collection b' = collection b @ reported)
   \<and> (distinct (map docUrl (collection b)) \<and> distinct (map docSourceHash (collection b)) \<longrightarrow>
        (\<forall>b' reported. saveNews b cs = Inr (b', reported) \<longrightarrow>
           distinct (map docUrl (collection b')) \<and> distinct (map docSourceHash (collection b'))))
   \<and> ((\<forall>d\<in>set (collection b). \<not> matches c1 d) \<and> validated (freshId (collection b)) c1 = Inr n
        \<and> url c2 = url c1 \<longrightarrow>
        (\<exists>b'. saveNews b [c1, c2] = Inr (b', [n]) \<and> collection b' = collection b @ [n]))"
proof (intro conjI allI impI)
  fix b' savedNews'
  assume "saveOne (b, savedNews) c = (b', savedNews')"
  then show "if (\<forall>d\<in>set (collection b). \<not> matches c d)
          \<and> (\<exists>n. validated (freshId (collection b)) c = Inr n)
       then \<exists>n. validated (freshId (collection b)) c = Inr n
              \<and> collection b' = collection b @ [n] \<and> savedNews' = savedNews @ [n]
       else collection b' = collection b \<and> savedNews' = savedNews"
    by (rule saveOne_cases)
next
  show "\<exists>b' reported. saveNews b cs = Inr (b', reported) \<and> collection b' = collection b @ reported"
    by (rule saveNews_returns)
next
  fix b' reported
  assume "distinct (map docUrl (collection b)) \<and> distinct (map docSourceHash (collection b))"
    and "saveNews b cs = Inr (b', reported)"
  then show "distinct (map docUrl (collection b'))" and "distinct (map docSourceHash (collection b'))"
    using saveNews_unique [of b cs b' reported] by simp_all
next
  assume "(\<forall>d\<in>set (collection b). \<not> matches c1 d) \<and> validated (freshId (collection b)) c1 = Inr n
        \<and> url c2 = url c1"
  then show "\<exists>b'. saveNews b [c1, c2] = Inr (b', [n]) \<and> collection b' = collection b @ [n]"
    using same_url_twice [of b c1 n c2] by simp
qed

lemma senateT1_validated: "validated (freshId []) senateT1 = Inr (senateDoc 1)"
  by (simp add: validated_def freshId_def senateT1_def senateDoc_def trim_def isWhitespace_def
      categoryEnum_def)

theorem store_gateway_inserts_unmatched_valid_candidates_witness:
  "url retitledItem = url senateT1 \<and> sourceHash retitledItem \<noteq> sourceHash senateT1
   \<and> validated (freshId (collection emptyBackend)) senateT1 = Inr (senateDoc 1)
   \<and> (\<exists>b'. saveNews emptyBackend [senateT1, retitledItem] = Inr (b', [senateDoc 1])
          \<and> collection b' = [senateDoc 1])"
proof -
  have same: "url retitledItem = url senateT1" "sourceHash retitledItem \<noteq> sourceHash senateT1"
    by (simp_all add: retitledItem_def senateT1_def)
  have valid: "validated (freshId (collection emptyBackend)) senateT1 = Inr (senateDoc 1)"
    by (simp add: emptyBackend_def senateT1_validated)
  have unmatched: "\<forall>d\<in>set (collection emptyBackend). \<not> matches senateT1 d"
    by (simp add: emptyBackend_def)
  from store_gateway_inserts_unmatched_valid_candidates
    [where b = emptyBackend and ?c1.0 = senateT1 and ?c2.0 = retitledItem and n = "senateDoc 1"]
  have "(\<forall>d\<in>set (collection emptyBackend). \<not> matches senateT1 d)
        \<and> validated (freshId (collection emptyBackend)) senateT1 = Inr (senateDoc 1)
        \<and> url retitledItem = url senateT1 \<longrightarrow>
        (\<exists>b'. saveNews emptyBackend [senateT1, retitledItem] = Inr (b', [senateDoc 1])
          \<and> collection b' = collection emptyBackend @ [senateDoc 1])"
    by blast
  with same valid unmatched
  have "\<exists>b'. saveNews emptyBackend [senateT1, retitledItem] = Inr (b', [senateDoc 1])
          \<and> collection b' = collection emptyBackend @ [senateDoc 1]"
    by blast
  then have "\<exists>b'. saveNews emptyBackend [senateT1, retitledItem] = Inr (b', [senateDoc 1])
          \<and> collection b' = [senateDoc 1]"
    by (simp add: emptyBackend_def)
  with same valid show ?thesis by blast
qed

section \<open>Claims about the recency cache\<close>

lemma served_healthy: "faults r = [] \<Longrightarrow> served r = Inr r"
  by (simp add: served_def)

lemma listRange_first_100: "listRange xs 0 99 = take 100 xs"
proof (cases "xs = []")
  case True
  then show ?thesis by (simp add: listRange_def)
next
  case False
  then have "0 < length xs" by simp
  then have "nat (min (int (length xs) - 1) 99 + 1) = min (length xs) 100" by linarith
  moreover from False have "\<not> 0 > min (int (length xs) - 1) 99" by (cases xs) auto
  moreover have "take (min (length xs) 100) xs = take 100 xs"
    by (cases "length xs \<le> 100") (simp_all add: min_def)
  ultimately show ?thesis by (simp add: listRange_def Let_def)
qed

text \<open>What a served cache write leaves behind.\<close>

lemma cacheWrites_healthy:
  assumes "faults r = []"
  shows "\<exists>r'. cacheWrites r n = Inr r' \<and> faults r' = []
           \<and> kv r' (NewsKey (docId n)) = Some n
           \<and> ttl r' (NewsKey (docId n)) = Some 3600
           \<and> lst r' (CategoryKey (docCategory n))
                = Some (docId n # (case lst r (CategoryKey (docCategory n)) of None \<Rightarrow> [] | Some xs \<Rightarrow> xs))
           \<and> ttl r' (CategoryKey (docCategory n)) = Some 3600
           \<and> lst r' LatestKey
                = Some (take 100 (docId n # (case lst r LatestKey of None \<Rightarrow> [] | Some xs \<Rightarrow> xs)))
           \<and> ttl r' LatestKey = ttl r LatestKey"
  using assms
  by (simp add: cacheWrites_def setEx_def lPush_def expire_def lTrim_def served_healthy
      listRange_first_100)

lemma cacheNews_healthy:
  assumes "faults r = []"
  shows "\<exists>r'. cacheNews (Some r) n = Inr (Some r') \<and> faults r' = []
           \<and> llen r' (CategoryKey (docCategory n)) = Suc (llen r (CategoryKey (docCategory n)))
           \<and> ttl r' (CategoryKey (docCategory n)) = Some 3600
           \<and> llen r' LatestKey = min 100 (Suc (llen r LatestKey))
           \<and> ttl r' LatestKey = ttl r LatestKey"
proof -
  from cacheWrites_healthy [OF assms, of n] obtain r' where w: "cacheWrites r n = Inr r'"
    and f: "faults r' = []"
    and c: "lst r' (CategoryKey (docCategory n))
              = Some (docId n # (case lst r (CategoryKey (docCategory n)) of None \<Rightarrow> [] | Some xs \<Rightarrow> xs))"
    and ct: "ttl r' (CategoryKey (docCategory n)) = Some 3600"
    and l: "lst r' LatestKey
              = Some (take 100 (docId n # (case lst r LatestKey of None \<Rightarrow> [] | Some xs \<Rightarrow> xs)))"
    and lt: "ttl r' LatestKey = ttl r LatestKey"
    by blast
  from c have "llen r' (CategoryKey (docCategory n)) = Suc (llen r (CategoryKey (docCategory n)))"
    by (simp add: llen_def split: option.splits)
  moreover from l have "llen r' LatestKey = min 100 (Suc (llen r LatestKey))"
    by (simp add: llen_def split: option.splits)
  ultimately show ?thesis using w f ct lt by (simp add: cacheNews_def)
qed

text \<open>
  After the cache writes of \<open>k\<close> inserts of one category into a served cache: the list of
  the category has grown by \<open>k\<close>, the latest list holds at most 100 identifiers, and the
  latest list has the time to live it had before.
\<close>

lemma cacheAll_one_category:
  assumes "faults r = []" and "\<forall>n\<in>set docs. docCategory n = c" and "docs \<noteq> []"
  shows "\<exists>r'. cacheAll (Some r) docs = Some r' \<and> faults r' = []
           \<and> llen r' (CategoryKey c) = llen r (CategoryKey c) + length docs
           \<and> ttl r' (CategoryKey c) = Some 3600
           \<and> llen r' LatestKey = min 100 (llen r LatestKey + length docs)
           \<and> ttl r' LatestKey = ttl r LatestKey"
  using assms
proof (induction docs arbitrary: r)
  case Nil
  then show ?case by simp
next
  case (Cons n docs)
  from Cons.prems have cat: "docCategory n = c" by simp
  from cacheNews_healthy [OF Cons.prems(1), of n] cat obtain r1
    where one: "cacheNews (Some r) n = Inr (Some r1)" and f1: "faults r1 = []"
      and c1: "llen r1 (CategoryKey c) = Suc (llen r (CategoryKey c))"
      and ct1: "ttl r1 (CategoryKey c) = Some 3600"
      and l1: "llen r1 LatestKey = min 100 (Suc (llen r LatestKey))"
      and lt1: "ttl r1 LatestKey = ttl r LatestKey"
    by auto
  show ?case
  proof (cases "docs = []")
    case True
    with one f1 c1 ct1 l1 lt1 show ?thesis by (simp add: cacheAll_def)
  next
    case False
    from Cons.prems have "\<forall>n\<in>set docs. docCategory n = c" by simp
    from Cons.IH [OF f1 this False] obtain r'
      where "cacheAll (Some r1) docs = Some r'" "faults r' = []"
        "llen r' (CategoryKey c) = llen r1 (CategoryKey c) + length docs"
        "ttl r' (CategoryKey c) = Some 3600"
        "llen r' LatestKey = min 100 (llen r1 LatestKey + length docs)"
        "ttl r' LatestKey = ttl r1 LatestKey"
      by blast
    with one c1 l1 lt1 show ?thesis by (simp add: cacheAll_def)
  qed
qed

text \<open>
  Claim C6 at a concrete input: 101 successive inserts of the category \<open>politics\<close>, each
  followed by its cache write, into an empty, served cache. The per-topic list then holds
  101 identifiers, one more than the bound, because cacheNews never trims it; and the
  latest list, trimmed to 100, has no time to live, because cacheNews never sets one.
\<close>

theorem recency_lists_after_101_inserts:
  "\<exists>r. cacheAll (Some emptyRedis) (map politicsDoc [1..<102]) = Some r
       \<and> llen r (CategoryKey ''politics'') = 101
       \<and> ttl r (CategoryKey ''politics'') = Some 3600
       \<and> llen r LatestKey = 100
       \<and> ttl r LatestKey = None"
proof -
  have "faults emptyRedis = []" by (simp add: emptyRedis_def)
  moreover have "\<forall>n\<in>set (map politicsDoc [1..<102]). docCategory n = ''politics''"
    by (simp add: politicsDoc_def)
  moreover have "map politicsDoc [1..<102] \<noteq> []" by simp
  ultimately obtain r where "cacheAll (Some emptyRedis) (map politicsDoc [1..<102]) = Some r"
    and "llen r (CategoryKey ''politics'') = llen emptyRedis (CategoryKey ''politics'') + length (map politicsDoc [1..<102])"
    and "ttl r (CategoryKey ''politics'') = Some 3600"
    and "llen r LatestKey = min 100 (llen emptyRedis LatestKey + length (map politicsDoc [1..<102]))"
    and "ttl r LatestKey = ttl emptyRedis LatestKey"
    using cacheAll_one_category [of emptyRedis "map politicsDoc [1..<102]" "''politics''"] by blast
  then show ?thesis by (simp add: llen_def emptyRedis_def)
qed

section \<open>Claims about the cycle coordinator\<close>

text \<open>A cron tick while the flag is set changes nothing: no call of fetchAllNews starts.\<close>

lemma tick_while_running: "isRunning s \<Longrightarrow> step s CronTick = Some s"
  by simp

text \<open>When a cron cycle settles, fulfilled or rejected, the flag is cleared.\<close>

lemma settled_clears_flag: "step s (CronSettled outcome) = Some s' \<Longrightarrow> \<not> isRunning s'"
  by (auto split: if_splits option.splits)

text \<open>The flag is set exactly while a cron cycle is in progress, and there is at most one.\<close>

lemma step_flag_invariant:
  assumes "step s e = Some s'" and "cronFetches s = (if isRunning s then 1 else 0)"
  shows "cronFetches s' = (if isRunning s' then 1 else 0)"
  using assms by (cases e) (auto split: if_splits option.splits)

lemma run_flag_invariant:
  assumes "run s es = Some s'" and "cronFetches s = (if isRunning s then 1 else 0)"
  shows "cronFetches s' = (if isRunning s' then 1 else 0)"
  using assms
proof (induction es arbitrary: s)
  case Nil
  then show ?case by simp
next
  case (Cons e es)
  from Cons.prems(1) obtain s1 where one: "step s e = Some s1" and rest: "run s1 es = Some s'"
    by (auto split: option.splits)
  from step_flag_invariant [OF one Cons.prems(2)] have "cronFetches s1 = (if isRunning s1 then 1 else 0)" .
  from Cons.IH [OF rest this] show ?case .
qed

lemma cron_cycles_never_overlap: "run started es = Some s \<Longrightarrow> cronFetches s \<le> 1"
  using run_flag_invariant [of started es s] by (simp add: started_def split: if_splits)

text \<open>
  Claim C7 at a concrete input. The five-minute tick comes first and starts a cycle, which
  sets the flag; the start-up timer fires before that cycle has settled. Its callback calls
  fetchAllNews without reading the flag: two cycles are in progress, with the flag set.
  In the other order the start-up cycle runs with the flag clear, so the tick that
  follows starts a second cycle as well.
\<close>

theorem startup_fetch_overlaps_cron_cycle:
  "run started [CronTick, StartupTimer]
     = Some \<lparr> isRunning = True, cronFetches = 1, startupFetches = 1, startupPending = False,
              fetchCalls = 2 \<rparr>
   \<and> run started [StartupTimer, CronTick]
     = Some \<lparr> isRunning = True, cronFetches = 1, startupFetches = 1, startupPending = False,
              fetchCalls = 2 \<rparr>
   \<and> inProgress \<lparr> isRunning = True, cronFetches = 1, startupFetches = 1, startupPending = False,
              fetchCalls = 2 \<rparr> = 2"
  by (simp add: started_def inProgress_def)

section \<open>Claims about the read path\<close>

lemma getEach_healthy:
  "faults r = [] \<Longrightarrow> getEach r ids = Inr (map (\<lambda>i. kv r (NewsKey i)) ids, r)"
  by (induction ids) (simp_all add: get_def served_healthy)

lemma getLatestNews_no_client:
  "redisClient b = None \<Longrightarrow> getLatestNews b limit offset = Inr (findSorted isActive limit offset (collection b))"
  by (simp add: getLatestNews_def)

lemma getLatestNews_served:
  assumes "redisClient b = Some r" and "faults r = []"
  shows "getLatestNews b limit offset =
           Inr (if cachedLatest r limit offset \<noteq> [] then cachedLatest r limit offset
                else findSorted isActive limit offset (collection b))"
proof (cases "lst r LatestKey")
  case None
  with assms show ?thesis
    by (simp add: getLatestNews_def lRange_def served_healthy cachedLatest_def filterBoolean_def
        List.map_filter_simps)
next
  case (Some xs)
  show ?thesis
  proof (cases "listRange xs (int offset) (int offset + int limit - 1) = []")
    case True
    with Some assms show ?thesis
      by (simp add: getLatestNews_def lRange_def served_healthy cachedLatest_def filterBoolean_def
          List.map_filter_simps)
  next
    case False
    with Some assms show ?thesis
      by (simp add: getLatestNews_def lRange_def served_healthy cachedLatest_def getEach_healthy)
  qed
qed

text \<open>The query of the store: only documents that satisfy the filter, newest first, at most \<open>limit\<close>.\<close>

lemma findSorted_filtered: "set (findSorted p limit offset coll) \<subseteq> {d \<in> set coll. p d}"
proof
  fix d
  assume "d \<in> set (findSorted p limit offset coll)"
  then have "d \<in> set (drop offset (sort_key (\<lambda>d. - docPublishedAt d) (filter p coll)))"
    by (auto simp: findSorted_def Let_def split: if_splits dest: in_set_takeD)
  then have "d \<in> set (sort_key (\<lambda>d. - docPublishedAt d) (filter p coll))"
    by (rule in_set_dropD)
  then show "d \<in> {d \<in> set coll. p d}" by simp
qed

lemma findSorted_newest_first:
  "sorted (map (\<lambda>d. - docPublishedAt d) (findSorted p limit offset coll))"
proof -
  have "sorted (map (\<lambda>d. - docPublishedAt d) (sort_key (\<lambda>d. - docPublishedAt d) (filter p coll)))"
    by (rule sorted_sort_key)
  then have "sorted (map (\<lambda>d. - docPublishedAt d)
      (drop offset (sort_key (\<lambda>d. - docPublishedAt d) (filter p coll))))"
    by (simp add: drop_map [symmetric] sorted_wrt_drop)
  then show ?thesis
    by (simp add: findSorted_def Let_def take_map [symmetric] sorted_wrt_take)
qed

lemma findSorted_limited: "0 < limit \<Longrightarrow> length (findSorted p limit offset coll) \<le> limit"
  by (simp add: findSorted_def Let_def)

lemma deactivated_cache:
  "redisClient deactivatedBackend
     = Some \<lparr> kv = [NewsKey 1 \<mapsto> senateDoc 1],
              lst = [CategoryKey ''politics'' \<mapsto> [1], LatestKey \<mapsto> [1]],
              ttl = [NewsKey 1 \<mapsto> 3600, CategoryKey ''politics'' \<mapsto> 3600],
              faults = [] \<rparr>"
  by (simp add: deactivatedBackend_def cacheAll_def cacheNews_def cacheWrites_def setEx_def
      lPush_def expire_def lTrim_def served_def emptyRedis_def senateDoc_def listRange_def)

text \<open>
  Claim C8 at a concrete input. cacheNews has written the per-topic list of
  \<open>politics\<close>; the list and the entry of the document have their full time to live;
  the document has since been deactivated in the collection. The latest read answers from
  the cache and returns the cached document. The read by topic does not look at the list
  that cacheNews keeps for it: it answers from the store and returns nothing.
\<close>

theorem read_by_topic_ignores_cache:
  "(\<exists>r. redisClient deactivatedBackend = Some r
        \<and> lst r (CategoryKey ''politics'') = Some [1] \<and> ttl r (CategoryKey ''politics'') = Some 3600
        \<and> kv r (NewsKey 1) = Some (senateDoc 1) \<and> ttl r (NewsKey 1) = Some 3600)
   \<and> getNewsByCategory deactivatedBackend ''politics'' 20 0 = Inr []
   \<and> getLatestNews deactivatedBackend 20 0 = Inr [senateDoc 1]"
proof (intro conjI)
  show "\<exists>r. redisClient deactivatedBackend = Some r
        \<and> lst r (CategoryKey ''politics'') = Some [1] \<and> ttl r (CategoryKey ''politics'') = Some 3600
        \<and> kv r (NewsKey 1) = Some (senateDoc 1) \<and> ttl r (NewsKey 1) = Some 3600"
    by (simp add: deactivated_cache)
  show "getNewsByCategory deactivatedBackend ''politics'' 20 0 = Inr []"
    by (simp add: getNewsByCategory_def findSorted_def deactivatedBackend_def)
  show "getLatestNews deactivatedBackend 20 0 = Inr [senateDoc 1]"
    by (simp add: getLatestNews_def deactivated_cache lRange_def get_def served_def listRange_def
        filterBoolean_def List.map_filter_simps)
qed

text \<open>
  What the two reads return. The latest read, without a Redis client, returns the query of
  the store; with a client whose commands are served it returns the cached documents of
  the requested window when there is at least one, and the query of the store otherwise.
  The read by topic returns the query of the store, whatever the cache holds. The query
  of the store returns only documents that satisfy the filter, ordered by publishedAt
  descending, after \<open>offset\<close> skipped ones, at most \<open>limit\<close> of them.
\<close>

lemma read_path:
  "(redisClient b = None \<longrightarrow>
      getLatestNews b limit offset = Inr (findSorted isActive limit offset (collection b)))
   \<and> (redisClient b = Some r \<and> faults r = [] \<longrightarrow>
      getLatestNews b limit offset =
        Inr (if cachedLatest r limit offset \<noteq> [] then cachedLatest r limit offset
             else findSorted isActive limit offset (collection b)))
   \<and> getNewsByCategory (b \<lparr> redisClient := client \<rparr>) topic limit offset
       = Inr (findSorted (\<lambda>d. docCategory d = topic \<and> isActive d) limit offset (collection b))
   \<and> set (findSorted p limit offset (collection b)) \<subseteq> {d \<in> set (collection b). p d}
   \<and> sorted (map (\<lambda>d. - docPublishedAt d) (findSorted p limit offset (collection b)))
   \<and> (0 < limit \<longrightarrow> length (findSorted p limit offset (collection b)) \<le> limit)
   \<and> findSorted p limit offset (collection b)
       = (if limit = 0 then drop offset (sort_key (\<lambda>d. - docPublishedAt d) (filter p (collection b)))
          else take limit (drop offset (sort_key (\<lambda>d. - docPublishedAt d) (filter p (collection b)))))"
proof (intro conjI impI)
  assume "redisClient b = None"
  then show "getLatestNews b limit offset = Inr (findSorted isActive limit offset (collection b))"
    by (rule getLatestNews_no_client)
next
  assume "redisClient b = Some r \<and> faults r = []"
  then show "getLatestNews b limit offset =
        Inr (if cachedLatest r limit offset \<noteq> [] then cachedLatest r limit offset
             else findSorted isActive limit offset (collection b))"
    using getLatestNews_served [of b r] by simp
next
  show "getNewsByCategory (b \<lparr> redisClient := client \<rparr>) topic limit offset
       = Inr (findSorted (\<lambda>d. docCategory d = topic \<and> isActive d) limit offset (collection b))"
    by (simp add: getNewsByCategory_def)
next
  show "set (findSorted p limit offset (collection b)) \<subseteq> {d \<in> set (collection b). p d}"
    by (rule findSorted_filtered)
next
  show "sorted (map (\<lambda>d. - docPublishedAt d) (findSorted p limit offset (collection b)))"
    by (rule findSorted_newest_first)
next
  assume "0 < limit"
  then show "length (findSorted p limit offset (collection b)) \<le> limit"
    by (rule findSorted_limited)
next
  show "findSorted p limit offset (collection b)
       = (if limit = 0 then drop offset (sort_key (\<lambda>d. - docPublishedAt d) (filter p (collection b)))
          else take limit (drop offset (sort_key (\<lambda>d. - docPublishedAt d) (filter p (collection b)))))"
    by (simp add: findSorted_def Let_def)
qed

section \<open>Claims about failures of the cache and of the fan-out\<close>

text \<open>
  The write path does not depend on the cache: whatever client there is and whichever
  commands the server refuses, saveNews returns, and it stores and reports the same
  documents as with no client at all.
\<close>

lemma saveOne_ignores_cache:
  assumes "collection b2 = collection b1" and "ioServer b2 = ioServer b1"
    and "saveOne (b1, savedNews) c = (b1', s1)" and "saveOne (b2, savedNews) c = (b2', s2)"
  shows "collection b2' = collection b1' \<and> ioServer b2' = ioServer b1' \<and> s2 = s1"
proof -
  have shape: "collection b' = (case findOne (collection b) c of
               Some existing \<Rightarrow> collection b
             | None \<Rightarrow> (case save (collection b) c of
                          Inl e \<Rightarrow> collection b | Inr (n, coll) \<Rightarrow> coll))
      \<and> ioServer b' = ioServer b
      \<and> s = (case findOne (collection b) c of
               Some existing \<Rightarrow> savedNews
             | None \<Rightarrow> (case save (collection b) c of
                          Inl e \<Rightarrow> savedNews | Inr (n, coll) \<Rightarrow> savedNews @ [n]))"
    if "saveOne (b, savedNews) c = (b', s)" for b b' s
    using that cacheNews_returns [of "redisClient b"]
    by (auto simp: saveOne_def split: option.splits sum.splits prod.splits)
  from shape [OF assms(3)] shape [OF assms(4), unfolded assms(1,2)] show ?thesis by simp
qed

lemma foldl_saveOne_ignores_cache:
  assumes "collection b2 = collection b1" and "ioServer b2 = ioServer b1"
    and "foldl saveOne (b1, savedNews) cs = (b1', s1)"
    and "foldl saveOne (b2, savedNews) cs = (b2', s2)"
  shows "collection b2' = collection b1' \<and> ioServer b2' = ioServer b1' \<and> s2 = s1"
  using assms
proof (induction cs arbitrary: b1 b2 savedNews)
  case Nil
  then show ?case by simp
next
  case (Cons c cs)
  obtain m1 t1 where one: "saveOne (b1, savedNews) c = (m1, t1)" by (cases "saveOne (b1, savedNews) c")
  obtain m2 t2 where two: "saveOne (b2, savedNews) c = (m2, t2)" by (cases "saveOne (b2, savedNews) c")
  from saveOne_ignores_cache [OF Cons.prems(1,2) one two]
  have same: "collection m2 = collection m1" "ioServer m2 = ioServer m1" "t2 = t1" by simp_all
  from Cons.prems(3) one have r1: "foldl saveOne (m1, t1) cs = (b1', s1)" by simp
  from Cons.prems(4) two same have r2: "foldl saveOne (m2, t1) cs = (b2', s2)" by simp
  from Cons.IH [OF same(1,2) r1 r2] show ?case .
qed

lemma saveNews_ignores_cache:
  "\<exists>b1 b2 reported. saveNews (b \<lparr> redisClient := client \<rparr>) cs = Inr (b1, reported)
      \<and> saveNews (b \<lparr> redisClient := None \<rparr>) cs = Inr (b2, reported)
      \<and> collection b1 = collection b2"
proof -
  let ?with = "b \<lparr> redisClient := client \<rparr>" and ?without = "b \<lparr> redisClient := None \<rparr>"
  obtain m1 t1 where one: "foldl saveOne (?with, []) cs = (m1, t1)"
    by (cases "foldl saveOne (?with, []) cs")
  obtain m2 t2 where two: "foldl saveOne (?without, []) cs = (m2, t2)"
    by (cases "foldl saveOne (?without, []) cs")
  have "collection ?without = collection ?with" "ioServer ?without = ioServer ?with" by simp_all
  from foldl_saveOne_ignores_cache [OF this one two]
  have same: "collection m2 = collection m1" "ioServer m2 = ioServer m1" "t2 = t1" by simp_all
  obtain sock where "broadcastNews (ioServer m1) t1 = Inr sock"
    using broadcastNews_returns by blast
  with one two same show ?thesis by (simp add: saveNews_def)
qed

text \<open>
  Claim C9 at a concrete input. The collection holds one active document and the Redis
  server refuses the next command. The \<open>lRange\<close> of the latest read is refused, the
  \<open>catch\<close> of getLatestNews logs the error and throws it again: the caller receives the
  error, not the document that the query of the store returns, and that the same read
  returns when there is no client.
\<close>

theorem latest_read_surfaces_cache_failure:
  "getLatestNews failingCacheBackend 20 0 = Inl RedisError
   \<and> findSorted isActive 20 0 (collection failingCacheBackend) = [senateDoc 1]
   \<and> getLatestNews (failingCacheBackend \<lparr> redisClient := None \<rparr>) 20 0 = Inr [senateDoc 1]"
  by (simp add: getLatestNews_def failingCacheBackend_def lRange_def served_def emptyRedis_def
      findSorted_def senateDoc_def)

section \<open>Claims about the fan-out\<close>

lemma fetchAllNews_returns:
  "\<exists>b' processedNews.
      fetchAllNews lower sim b (allNews generateHash bbcFeeds reutersFeeds apiKey respond)
        = Inr (b', processedNews)"
proof -
  let ?batch = "allNews generateHash bbcFeeds reutersFeeds apiKey respond"
  have "\<forall>i\<in>set ?batch. title i \<noteq> None"
    using allNews_valid [of generateHash bbcFeeds reutersFeeds apiKey respond]
    by (auto simp: isValidNewsItem_iff)
  from process_total [OF this] obtain processedNews
    where p: "processAndDeduplicateNews lower sim ?batch = Inr processedNews" by blast
  obtain b' reported where "saveNews b processedNews = Inr (b', reported)"
    using saveNews_returns by blast
  with p show ?thesis by (simp add: fetchAllNews_def)
qed

text \<open>
  Claim C10. With \<open>io\<close> still null, broadcastNews returns normally and there is no
  server that could have emitted anything. With a server, whichever emits the transport
  throws on, broadcastNews returns normally. Hence saveNews, which calls it outside every
  \<open>try\<close>, returns normally, and so does the cycle run on a batch of the adapters.
\<close>

theorem broadcast_never_raises:
  "broadcastNews None newsItems = Inr None
   \<and> (\<exists>sock. broadcastNews ioState newsItems = Inr sock)
   \<and> (\<exists>b' reported. saveNews b cs = Inr (b', reported))
   \<and> (\<exists>b' processedNews.
        fetchAllNews lower sim b (allNews generateHash bbcFeeds reutersFeeds apiKey respond)
          = Inr (b', processedNews))"
proof (intro conjI)
  show "broadcastNews None newsItems = Inr None" by (simp add: broadcastNews_def)
  show "\<exists>sock. broadcastNews ioState newsItems = Inr sock" by (rule broadcastNews_returns)
  show "\<exists>b' reported. saveNews b cs = Inr (b', reported)" using saveNews_returns by blast
  show "\<exists>b' processedNews.
        fetchAllNews lower sim b (allNews generateHash bbcFeeds reutersFeeds apiKey respond)
          = Inr (b', processedNews)"
    by (rule fetchAllNews_returns)
qed

theorem broadcast_never_raises_witness:
  "broadcastNews None [senateDoc 1] = Inr None
   \<and> broadcastNews (Some \<lparr> emitted = [], emitFaults = [False, True] \<rparr>) [senateDoc 1]
       = Inr (Some \<lparr> emitted = [NewsUpdate [senateDoc 1] 1], emitFaults = [] \<rparr>)
   \<and> broadcastNews (Some \<lparr> emitted = [], emitFaults = [] \<rparr>) [senateDoc 1]
       = Inr (Some \<lparr> emitted = [NewsUpdate [senateDoc 1] 1, CategoryUpdate ''politics'' (senateDoc 1)],
                       emitFaults = [] \<rparr>)"
proof -
  have "broadcastNews None [senateDoc 1] = Inr None"
    using broadcast_never_raises [where newsItems = "[senateDoc 1]"] by blast
  moreover have "broadcastNews (Some \<lparr> emitted = [], emitFaults = [False, True] \<rparr>) [senateDoc 1]
       = Inr (Some \<lparr> emitted = [NewsUpdate [senateDoc 1] 1], emitFaults = [] \<rparr>)"
    by (simp add: broadcastNews_def broadcastBody_def emit_def)
  moreover have "broadcastNews (Some \<lparr> emitted = [], emitFaults = [] \<rparr>) [senateDoc 1]
       = Inr (Some \<lparr> emitted = [NewsUpdate [senateDoc 1] 1, CategoryUpdate ''politics'' (senateDoc 1)],
                       emitFaults = [] \<rparr>)"
    by (simp add: broadcastNews_def broadcastBody_def emit_def senateDoc_def)
  ultimately show ?thesis by simp
qed

end
